theory Spec2Isabelle
  imports Complex_Main
begin

section \<open>Newmark-\<beta> time stepping of the cantilever-beam notebooks\<close>

text \<open>
  The program is a pair of Jupyter notebooks: \<^verbatim>\<open>03-Dynamics/Newmark.ipynb\<close> (the
  exercise sheet: parameters, validation of inputs, the two variants of
  \<^verbatim>\<open>compute_acceleration\<close>, and a time loop whose predictor, force and corrector lines
  are left as \<^verbatim>\<open>raise RuntimeError("...")\<close> placeholders) and the worked notebook
  (the same cells with the time loop written out for the implicit variant).
  The cells are embedded in their order of execution; the placeholders of the exercise
  sheet are filled with the lines of the worked notebook (the predictor, the internal
  forces, the corrector and the formula of the critical time step). The worked notebook
  has one more cell before the loop, \<^verbatim>\<open>solver.solve(a_vec, f_vec)\<close>, where
  \<^verbatim>\<open>f_vec\<close> is not defined; the loop starts by zeroing \<^verbatim>\<open>a_vec\<close>, and the cell is
  left out.

  Numbers: NumPy and DOLFIN compute in IEEE double precision. The embedding computes in
  \<^typ>\<open>real\<close>: rounding is not modelled, and the places where the program would
  produce \<^verbatim>\<open>inf\<close> or \<^verbatim>\<open>nan\<close> are explicit error branches.

  Library calls: DOLFIN itself is not part of the repository. Vectors are lists of
  their local values, assembled bilinear forms are square matrices given as lists of rows,
  \<^verbatim>\<open>y.axpy(\<alpha>, x)\<close> and \<^verbatim>\<open>A.mult(x, y)\<close> are written out as the notebook's own
  hints describe them, the direct solver \<^verbatim>\<open>dolfin.LUSolver\<close> is a parameter of the
  time loop (with a model of it after the specification for the property of the solver
  itself), and the action of a \<^verbatim>\<open>DirichletBC\<close> on a matrix follows the description
  in the specification.
\<close>

subsection \<open>Vectors and matrices\<close>

type_synonym vec = "real list"
type_synonym matrix = "real list list"

text \<open>\<^verbatim>\<open>x.zero()\<close>: every entry becomes 0, the size is kept.\<close>

definition zero :: "vec \<Rightarrow> vec" where
  "zero x = map (\<lambda>_. 0) x"

text \<open>\<^verbatim>\<open>y.axpy(\<alpha>, x)\<close> performs \<^verbatim>\<open>y \<leftarrow> \<alpha>\<cdot>x + y\<close>; the result is the new \<open>y\<close>.\<close>

definition axpy :: "vec \<Rightarrow> real \<Rightarrow> vec \<Rightarrow> vec" where
  "axpy y \<alpha> x = map2 (\<lambda>yi xi. \<alpha> * xi + yi) y x"

definition inner :: "vec \<Rightarrow> vec \<Rightarrow> real" where
  "inner x y = sum_list (map2 (*) x y)"

text \<open>\<^verbatim>\<open>A.mult(x, y)\<close> performs \<^verbatim>\<open>y \<leftarrow> A\<cdot>x\<close>; the result is the new \<open>y\<close>.\<close>

definition mult :: "matrix \<Rightarrow> vec \<Rightarrow> vec" where
  "mult A x = map (\<lambda>row. inner row x) A"

text \<open>\<^verbatim>\<open>A + B\<close> and \<^verbatim>\<open>c*A\<close> on assembled matrices.\<close>

definition mat_add :: "matrix \<Rightarrow> matrix \<Rightarrow> matrix" where
  "mat_add A B = map2 (map2 (+)) A B"

definition mat_scale :: "real \<Rightarrow> matrix \<Rightarrow> matrix" where
  "mat_scale c A = map (map ((*) c)) A"

text \<open>Sizes. DOLFIN refuses operands of different sizes; the theorems below assume
  that all vectors have \<open>n\<close> entries and all matrices are \<open>n \<times> n\<close>.\<close>

definition wf_mat :: "nat \<Rightarrow> matrix \<Rightarrow> bool" where
  "wf_mat n A \<longleftrightarrow> length A = n \<and> list_all (\<lambda>row. length row = n) A"

definition symmetric :: "matrix \<Rightarrow> bool" where
  "symmetric A \<longleftrightarrow>
     list_all (\<lambda>i. list_all (\<lambda>j. A ! i ! j = A ! j ! i) [0..<length A]) [0..<length A]"

subsection \<open>Dirichlet boundary conditions\<close>

text \<open>A \<^verbatim>\<open>DirichletBC\<close> is the list of its constrained dofs, each with the value
  prescribed there. Every condition of the notebooks is built from the constant zero.\<close>

type_synonym dirichlet_bc = "(nat \<times> real) list"

definition bc_dofs :: "dirichlet_bc list \<Rightarrow> nat set" where
  "bc_dofs bcs = set (map fst (concat bcs))"

definition homogeneous :: "dirichlet_bc list \<Rightarrow> bool" where
  "homogeneous bcs \<longleftrightarrow> list_all (\<lambda>(i, g). g = 0) (concat bcs)"

definition wf_bcs :: "nat \<Rightarrow> dirichlet_bc list \<Rightarrow> bool" where
  "wf_bcs n bcs \<longleftrightarrow> list_all (\<lambda>(i, g). i < n) (concat bcs)"

text \<open>\<^verbatim>\<open>bc.apply(b)\<close> on a vector: each constrained entry is overwritten with the
  prescribed value.\<close>

definition bc_apply_vec :: "dirichlet_bc \<Rightarrow> vec \<Rightarrow> vec" where
  "bc_apply_vec bc b = fold (\<lambda>(i, g) b. b[i := g]) bc b"

text \<open>\<^verbatim>\<open>for bc in bcs: bc.apply(b)\<close>\<close>

definition bcs_apply_vec :: "dirichlet_bc list \<Rightarrow> vec \<Rightarrow> vec" where
  "bcs_apply_vec bcs b = fold bc_apply_vec bcs b"

text \<open>Modelled from the spec: \<^verbatim>\<open>DirichletBC.apply\<close> on a matrix is DOLFIN code and is
  not in the repository. The specification describes it as: "zeroes each constrained row
  and column and places 1 on the diagonal". \<open>eliminate i A\<close> does this for one dof.
  Of this, the invariants of the time loop at the constrained dofs use only that each
  constrained row becomes a row of the identity.\<close>

definition eliminate :: "nat \<Rightarrow> matrix \<Rightarrow> matrix" where
  "eliminate i A = (map (\<lambda>row. row[i := 0]) A)[i := (replicate (length A) 0)[i := 1]]"

definition bc_apply_mat :: "dirichlet_bc \<Rightarrow> matrix \<Rightarrow> matrix" where
  "bc_apply_mat bc A = fold (\<lambda>(i, g) A. eliminate i A) bc A"

text \<open>\<^verbatim>\<open>for bc in bcs: bc.apply(A)\<close>\<close>

definition bcs_apply_mat :: "dirichlet_bc list \<Rightarrow> matrix \<Rightarrow> matrix" where
  "bcs_apply_mat bcs A = fold bc_apply_mat bcs A"

subsection \<open>Problem data\<close>

text \<open>The values the notebooks hold in global variables before the time loop starts:
  the parameter cells, the assembled forms and the collaborators.
  \<^item> \<open>beta_exp\<close>, \<open>gamma_exp\<close>: in the exercise sheet the two expected values are
    left to be filled in (\<^verbatim>\<open>beta_exp = np.inf; raise RuntimeError("insert expected value of \<beta>")\<close>);
    they are parameters here.
  \<^item> \<open>E_mod\<close>, \<open>rho\<close>: \<^verbatim>\<open>E\<close> and \<^verbatim>\<open>float(rho)\<close>; \<open>l_e\<close>: \<^verbatim>\<open>mesh.rmin()\<close>.
  \<^item> \<open>mass_form\<close>, \<open>damping_form\<close>, \<open>stiffness_form\<close>: the matrices
    \<^verbatim>\<open>dolfin.assemble\<close> returns for \<^verbatim>\<open>mass(u, v)\<close>, \<^verbatim>\<open>damping(u, v)\<close> and
    \<^verbatim>\<open>stiffness(u, v)\<close>, before any boundary condition is applied.
  \<^item> \<open>p_ext\<close>: the vector \<^verbatim>\<open>dolfin.assemble(p_ext(dolfin.TestFunction(V)))\<close> as a
    function of the value of \<^verbatim>\<open>traction.t\<close>.
  \<^item> \<open>LUSolver\<close>: \<^verbatim>\<open>dolfin.LUSolver(A)\<close> followed by \<^verbatim>\<open>solver.solve(a_vec, f)\<close>;
    \<open>None\<close> stands for the exception DOLFIN raises when the factorization fails.
  \<^item> \<open>tip_value\<close>: the evaluation \<^verbatim>\<open>u(*coords_tip)[T_dir]\<close> of the displacement
    at the tip.\<close>

record problem =
  t_end :: real
  num_steps :: nat
  beta :: real
  gamma :: real
  use_lumped_mass :: bool
  beta_exp :: real
  gamma_exp :: real
  E_mod :: real
  rho :: real
  l_e :: real
  mass_form :: matrix
  damping_form :: matrix
  stiffness_form :: matrix
  bcs :: "dirichlet_bc list"
  p_ext :: "real \<Rightarrow> vec"
  LUSolver :: "matrix \<Rightarrow> vec \<Rightarrow> vec option"
  tip_value :: "vec \<Rightarrow> real"

datatype error =
    CannotUseLumpedMass  \<comment> \<open>\<^verbatim>\<open>RuntimeError("cannot use lumped mass in this case")\<close>\<close>
  | ZeroDivisionError    \<comment> \<open>Python float division by zero\<close>
  | NonFinite            \<comment> \<open>NumPy would continue with \<^verbatim>\<open>inf\<close> or \<^verbatim>\<open>nan\<close>: outside the model\<close>
  | SolverFailure        \<comment> \<open>the exception raised by the direct solver\<close>
  | IndexError           \<comment> \<open>NumPy index out of bounds\<close>

text \<open>Number of dofs: the size of the function space \<^verbatim>\<open>V\<close>.\<close>

definition n_dofs :: "problem \<Rightarrow> nat" where
  "n_dofs p = length (mass_form p)"

subsection \<open>Validation of inputs\<close>

text \<open>
  \<^verbatim>\<open>
  atol = 1e-12
  test_beta = abs(float(beta)-beta_exp) < atol
  test_gamma = abs(float(gamma)-gamma_exp) < atol
  if use_lumped_mass and not (test_beta and test_gamma):
      raise RuntimeError("cannot use lumped mass in this case")
  \<close>
  The literal \<^verbatim>\<open>1e-12\<close> is the double nearest to \<open>10\<^sup>-\<^sup>1\<^sup>2\<close>, which is
  \<open>4951760157141521 \<cdot> 2\<^sup>-\<^sup>9\<^sup>2\<close>, a little below \<open>10\<^sup>-\<^sup>1\<^sup>2\<close>. With the expected values 0 and
  \<open>1/2\<close> the two differences are computed without rounding for all doubles \<open>\<beta>\<close> and
  for the doubles \<open>\<gamma>\<close> between \<open>1/4\<close> and 1; for the other \<open>\<gamma>\<close> the difference is at least
  \<open>1/4\<close> before and after rounding.\<close>

definition atol :: real where
  "atol = 4951760157141521 / 2 ^ 92"

definition validate_lumped :: "problem \<Rightarrow> error + unit" where
  "validate_lumped p =
     (let test_beta = \<bar>beta p - beta_exp p\<bar> < atol;
          test_gamma = \<bar>gamma p - gamma_exp p\<bar> < atol
      in if use_lumped_mass p \<and> \<not> (test_beta \<and> test_gamma)
         then Inl CannotUseLumpedMass else Inr ())"

text \<open>\<^verbatim>\<open>dt = t_end/num_steps\<close>: a Python float divided by a Python int.\<close>

definition dt :: "problem \<Rightarrow> real" where
  "dt p = t_end p / real (num_steps p)"

text \<open>
  \<^verbatim>\<open>
  c_e = np.sqrt(E/float(rho))
  l_e = mesh.rmin()
  dt_crit = l_e/c_e
  \<close>
  \<^verbatim>\<open>E/float(rho)\<close> divides two Python floats and raises for \<open>rho = 0\<close>. For a
  quotient that is not positive NumPy returns \<^verbatim>\<open>nan\<close> or an infinity and goes on.\<close>

definition dt_crit :: "problem \<Rightarrow> error + real" where
  "dt_crit p =
     (if rho p = 0 then Inl ZeroDivisionError
      else if E_mod p / rho p \<le> 0 then Inl NonFinite
      else (let c_e = sqrt (E_mod p / rho p) in Inr (l_e p / c_e)))"

text \<open>
  \<^verbatim>\<open>
  if dt > dt_crit:
      warnings.warn("simulation might be unstable")
  \<close>
  With the filter \<^verbatim>\<open>warnings.filterwarnings("default")\<close> of the first cell the warning
  is printed and execution continues. The result is whether the warning was issued.\<close>

definition stability_warning :: "real \<Rightarrow> real \<Rightarrow> bool" where
  "stability_warning h h_crit \<longleftrightarrow> h > h_crit"

subsection \<open>Operators of the scheme\<close>

text \<open>
  \<^verbatim>\<open>
  C = dolfin.assemble(damping(u, v))
  K = dolfin.assemble(stiffness(u, v))
  for bc in bcs:
      bc.apply(C)
      bc.apply(K)
  \<close>
  Each \<^verbatim>\<open>bc.apply\<close> touches one matrix, so the interleaved loop is two loops.\<close>

definition C_mat :: "problem \<Rightarrow> matrix" where
  "C_mat p = bcs_apply_mat (bcs p) (damping_form p)"

definition K_mat :: "problem \<Rightarrow> matrix" where
  "K_mat p = bcs_apply_mat (bcs p) (stiffness_form p)"

text \<open>
  \<^verbatim>\<open>
  M = dolfin.assemble(mass(u, v))
  M += gamma*dt*C
  M += beta*dt**2*K
  for bc in bcs:
      bc.apply(M)
  solver = dolfin.LUSolver(M)
  \<close>
  (in the worked notebook: \<^verbatim>\<open>A = M + gamma*dt*C + beta*dt**2*K\<close>, then the same loop).\<close>

definition A_mat :: "problem \<Rightarrow> matrix" where
  "A_mat p =
     (let M = mass_form p;
          M = mat_add M (mat_scale (gamma p * dt p) (C_mat p));
          M = mat_add M (mat_scale (beta p * (dt p)\<^sup>2) (K_mat p))
      in bcs_apply_mat (bcs p) M)"

text \<open>
  \<^verbatim>\<open>
  m = mass(u, v)+one_half*dt*damping(u, v)
  ones = dolfin.Constant(dim*(1.,))
  M_lumped = dolfin.assemble(dolfin.action(m, ones))
  M_lumped_inv = 1./M_lumped.get_local()
  \<close>
  The action of the form on the constant function 1 is the product of its matrix with
  the vector of ones.\<close>

definition M_lumped :: "problem \<Rightarrow> vec" where
  "M_lumped p =
     (let m = mat_add (mass_form p) (mat_scale (0.5 * dt p) (damping_form p));
          ones = replicate (n_dofs p) 1
      in mult m ones)"

definition M_lumped_inv :: "problem \<Rightarrow> vec" where
  "M_lumped_inv p = map (\<lambda>m. 1 / m) (M_lumped p)"

text \<open>
  \<^verbatim>\<open>
  if use_lumped_mass:
      def compute_acceleration(f_vec, a_vec):
          a_vec[:] = M_lumped_inv*f[:]
          for bc in bcs:
              bc.apply(a_vec)
  else:
      def compute_acceleration(f_vec, a_vec):
          solver.solve(a_vec, f_vec)
  \<close>
  The lumped variant reads the global variable \<^verbatim>\<open>f\<close>, not its parameter
  \<^verbatim>\<open>f_vec\<close>; the argument \<open>f\<close> below is the value of that global. The result is the
  new content of \<^verbatim>\<open>a_vec\<close>.\<close>

definition compute_acceleration :: "problem \<Rightarrow> vec \<Rightarrow> vec \<Rightarrow> vec option" where
  "compute_acceleration p f f_vec =
     (if use_lumped_mass p
      then Some (bcs_apply_vec (bcs p) (map2 (*) (M_lumped_inv p) f))
      else LUSolver p (A_mat p) f_vec)"

subsection \<open>The time loop\<close>

record state =
  u_vec :: vec
  v_vec :: vec
  a_vec :: vec
  Ku_vec :: vec
  Cv_vec :: vec
  f_glob :: vec  \<comment> \<open>the global \<^verbatim>\<open>f\<close>; unbound before the first iteration\<close>
  E_damp :: real
  displ_tip :: "real list"
  energies :: "real list list"

text \<open>
  \<^verbatim>\<open>
  times = dt*np.arange(num_steps+1, dtype=np.float64)
  displ_tip = np.zeros_like(times)
  energies = np.zeros((num_steps+1, 4), dtype=np.float64)
  E_damp = 0
  ...
  u_vec.zero(); v_vec.zero(); a_vec.zero(); Ku_vec.zero()
  \<close>
  The five vectors belong to freshly created functions of \<^verbatim>\<open>V\<close>.\<close>

definition init :: "problem \<Rightarrow> state" where
  "init p =
     \<lparr> u_vec = zero (replicate (n_dofs p) 0),
       v_vec = zero (replicate (n_dofs p) 0),
       a_vec = zero (replicate (n_dofs p) 0),
       Ku_vec = zero (replicate (n_dofs p) 0),
       Cv_vec = replicate (n_dofs p) 0,
       f_glob = [],
       E_damp = 0,
       displ_tip = replicate (num_steps p + 1) 0,
       energies = replicate (num_steps p + 1) (replicate 4 0) \<rparr>"

text \<open>
  \<^verbatim>\<open>
  u_vec.axpy(dt, v_vec)
  u_vec.axpy((.5-beta)*dt**2, a_vec)
  v_vec.axpy((1.-gamma)*dt, a_vec)
  \<close>\<close>

definition predictor :: "problem \<Rightarrow> state \<Rightarrow> state" where
  "predictor p s =
     (let s = s\<lparr>u_vec := axpy (u_vec s) (dt p) (v_vec s)\<rparr>;
          s = s\<lparr>u_vec := axpy (u_vec s) ((0.5 - beta p) * (dt p)\<^sup>2) (a_vec s)\<rparr>;
          s = s\<lparr>v_vec := axpy (v_vec s) ((1 - gamma p) * dt p) (a_vec s)\<rparr>
      in s)"

text \<open>
  \<^verbatim>\<open>
  traction.t = (n+1)*dt
  f = dolfin.assemble(p_ext(dolfin.TestFunction(V)))
  C.mult(v_vec, Cv_vec)
  K.mult(u_vec, Ku_vec)
  f.axpy(-1., Cv_vec)
  f.axpy(-1., Ku_vec)
  for bc in bcs:
      bc.apply(f)
  \<close>\<close>

definition update_force :: "problem \<Rightarrow> nat \<Rightarrow> state \<Rightarrow> state" where
  "update_force p n s =
     (let t = real (n + 1) * dt p;
          s = s\<lparr>f_glob := p_ext p t\<rparr>;
          s = s\<lparr>Cv_vec := mult (C_mat p) (v_vec s)\<rparr>;
          s = s\<lparr>Ku_vec := mult (K_mat p) (u_vec s)\<rparr>;
          s = s\<lparr>f_glob := axpy (f_glob s) (- 1) (Cv_vec s)\<rparr>;
          s = s\<lparr>f_glob := axpy (f_glob s) (- 1) (Ku_vec s)\<rparr>;
          s = s\<lparr>f_glob := bcs_apply_vec (bcs p) (f_glob s)\<rparr>
      in s)"

text \<open>
  \<^verbatim>\<open>
  u_vec.axpy(beta*dt**2, a_vec)
  v_vec.axpy(gamma*dt, a_vec)
  \<close>\<close>

definition corrector :: "problem \<Rightarrow> state \<Rightarrow> state" where
  "corrector p s =
     (let s = s\<lparr>u_vec := axpy (u_vec s) (beta p * (dt p)\<^sup>2) (a_vec s)\<rparr>;
          s = s\<lparr>v_vec := axpy (v_vec s) (gamma p * dt p) (a_vec s)\<rparr>
      in s)"

text \<open>
  \<^verbatim>\<open>
  displ_tip[n+1] = u(*coords_tip)[T_dir]
  E_elas = dolfin.assemble(0.5*stiffness(u, u))
  E_kin = dolfin.assemble(0.5*mass(v, v))
  E_damp += dt*dolfin.assemble(damping(v, v))
  E_tot = E_elas+E_kin+E_damp
  energies[n+1, :] = np.array([E_elas, E_kin, E_damp, E_tot])
  \<close>
  A bilinear form assembled on two functions is the product of their vectors with the
  matrix of the form. \<open>write_rows\<close> is the sequence of assignments; \<open>bookkeeping\<close> adds
  the bounds checks of the two indexed assignments, which NumPy makes before it writes.\<close>

definition write_rows :: "problem \<Rightarrow> nat \<Rightarrow> state \<Rightarrow> state" where
  "write_rows p n s =
     (let s = s\<lparr>displ_tip := (displ_tip s)[n + 1 := tip_value p (u_vec s)]\<rparr>;
          E_elas = 0.5 * inner (u_vec s) (mult (stiffness_form p) (u_vec s));
          E_kin = 0.5 * inner (v_vec s) (mult (mass_form p) (v_vec s));
          s = s\<lparr>E_damp := E_damp s + dt p * inner (v_vec s) (mult (damping_form p) (v_vec s))\<rparr>;
          E_tot = E_elas + E_kin + E_damp s;
          s = s\<lparr>energies := (energies s)[n + 1 := [E_elas, E_kin, E_damp s, E_tot]]\<rparr>
      in s)"

definition bookkeeping :: "problem \<Rightarrow> nat \<Rightarrow> state \<Rightarrow> error + state" where
  "bookkeeping p n s =
     (if length (displ_tip s) \<le> n + 1 \<or> length (energies s) \<le> n + 1 then Inl IndexError
      else Inr (write_rows p n s))"

text \<open>One iteration of \<^verbatim>\<open>for n in range(num_steps)\<close>. The call is
  \<^verbatim>\<open>compute_acceleration(f, a_vec)\<close>: the parameter \<^verbatim>\<open>f_vec\<close> and the global
  \<^verbatim>\<open>f\<close> are the same vector.\<close>

definition step :: "problem \<Rightarrow> nat \<Rightarrow> state \<Rightarrow> error + state" where
  "step p n s =
     (let s = predictor p s;
          s = update_force p n s
      in case compute_acceleration p (f_glob s) (f_glob s) of
           None \<Rightarrow> Inl SolverFailure
         | Some a \<Rightarrow> bookkeeping p n (corrector p (s\<lparr>a_vec := a\<rparr>)))"

text \<open>\<open>time_loop p k s\<close>: the state after the iterations \<open>n = 0, \<dots>, k - 1\<close>, or the
  error that stopped them.\<close>

primrec time_loop :: "problem \<Rightarrow> nat \<Rightarrow> state \<Rightarrow> error + state" where
  "time_loop p 0 s = Inr s"
| "time_loop p (Suc k) s =
     (case time_loop p k s of Inl e \<Rightarrow> Inl e | Inr s' \<Rightarrow> step p k s')"

text \<open>The cells in order: validation of the flag, the time step, the critical time step
  and its warning, the inverse of the lumped mass, the time loop. The result is the
  warning flag and the final state.\<close>

definition simulate :: "problem \<Rightarrow> error + (bool \<times> state)" where
  "simulate p =
     (case validate_lumped p of Inl e \<Rightarrow> Inl e | Inr _ \<Rightarrow>
        if num_steps p = 0 then Inl ZeroDivisionError else
        (case dt_crit p of Inl e \<Rightarrow> Inl e | Inr h_crit \<Rightarrow>
           if use_lumped_mass p \<and> 0 \<in> set (M_lumped p) then Inl NonFinite else
           (case time_loop p (num_steps p) (init p) of Inl e \<Rightarrow> Inl e
            | Inr s \<Rightarrow> Inr (stability_warning (dt p) h_crit, s))))"

text \<open>The cells before the time loop alone, up to the one that builds
  \<^verbatim>\<open>compute_acceleration\<close>: \<open>simulate\<close> is \<open>prepare\<close> followed by the loop.\<close>

definition prepare :: "problem \<Rightarrow> error + bool" where
  "prepare p =
     (case validate_lumped p of Inl e \<Rightarrow> Inl e | Inr _ \<Rightarrow>
        if num_steps p = 0 then Inl ZeroDivisionError else
        (case dt_crit p of Inl e \<Rightarrow> Inl e | Inr h_crit \<Rightarrow>
           if use_lumped_mass p \<and> 0 \<in> set (M_lumped p) then Inl NonFinite else
           Inr (stability_warning (dt p) h_crit)))"

subsection \<open>The direct solver\<close>

text \<open>Modelled from the spec: \<^verbatim>\<open>dolfin.LUSolver\<close> is DOLFIN code and is not in the
  repository. The specification describes the implicit variant as: build the effective
  matrix once, eliminate the boundary dofs, "factorize (e.g., direct decomposition) once;
  expose solve(f) \<rightarrow> a, where a is obtained by forward/back substitution". The
  factorization below is the LU decomposition without pivoting, stage
  by stage: a stage keeps the pivot, the rest of the pivot row (a row of \<open>U\<close>) and the
  multipliers (a column of \<open>L\<close>), and passes the Schur complement on to the next stage.
  A zero pivot makes it fail.\<close>

type_synonym lu_stage = "real \<times> vec \<times> vec"

definition multipliers :: "real \<Rightarrow> matrix \<Rightarrow> vec" where
  "multipliers a rows = map (\<lambda>rw. hd rw / a) rows"

definition schur :: "real \<Rightarrow> vec \<Rightarrow> matrix \<Rightarrow> matrix" where
  "schur a r rows = map (\<lambda>rw. map2 (\<lambda>rj x. x - hd rw / a * rj) r (tl rw)) rows"

function lu_factorize :: "matrix \<Rightarrow> lu_stage list option" where
  "lu_factorize [] = Some []"
| "lu_factorize ([] # rows) = None"
| "lu_factorize ((a # r) # rows) =
     (if a = 0 then None
      else map_option ((#) (a, r, multipliers a rows)) (lu_factorize (schur a r rows)))"
  by pat_completeness auto
termination by (relation "measure length") (simp_all add: schur_def)

text \<open>Modelled from the spec: forward substitution with the multipliers, then back
  substitution with the pivots and the pivot rows.\<close>

fun forward_subst :: "lu_stage list \<Rightarrow> vec \<Rightarrow> vec" where
  "forward_subst ((a, r, l) # fs) (b0 # b) =
     b0 # forward_subst fs (map2 (\<lambda>li bi. bi - li * b0) l b)"
| "forward_subst _ _ = []"

fun back_subst :: "lu_stage list \<Rightarrow> vec \<Rightarrow> vec" where
  "back_subst ((a, r, l) # fs) (y0 # y) =
     (let x = back_subst fs y in (y0 - inner r x) / a # x)"
| "back_subst _ _ = []"

definition lu_solve :: "lu_stage list \<Rightarrow> vec \<Rightarrow> vec" where
  "lu_solve fs b = back_subst fs (forward_subst fs b)"

text \<open>Modelled from the spec: the solver object and the record of its work. Building the
  object factorizes the matrix; \<^verbatim>\<open>solve\<close> substitutes with the stored factors and
  hands the object back as it was. Each of the two adds its entry to the record of
  calls.\<close>

datatype solver_call = Factorize matrix | Substitute vec

record lu_solver =
  factors :: "lu_stage list"

definition lu_solver_new ::
  "matrix \<Rightarrow> solver_call list \<Rightarrow> lu_solver option \<times> solver_call list" where
  "lu_solver_new A cs =
     (map_option (\<lambda>fs. \<lparr>factors = fs\<rparr>) (lu_factorize A), cs @ [Factorize A])"

definition lu_solver_solve ::
  "lu_solver \<Rightarrow> vec \<Rightarrow> solver_call list \<Rightarrow> lu_solver \<times> vec \<times> solver_call list" where
  "lu_solver_solve S b cs = (S, lu_solve (factors S) b, cs @ [Substitute b])"

subsection \<open>The implicit run with its solver object\<close>

text \<open>The worked notebook runs the implicit variant only and calls the solver in the loop
  itself. Its global variables: the effective matrix \<^verbatim>\<open>A\<close>, the solver built on it,
  and the vectors and tables of the loop; the record of solver calls goes with them.\<close>

record implicit_run =
  A_glob :: matrix
  solver :: lu_solver
  vars :: state
  calls :: "solver_call list"

text \<open>
  \<^verbatim>\<open>
  A = M + gamma*dt*C + beta*dt**2*K
  for bc in bcs:
      bc.apply(A)
  solver = dolfin.LUSolver(A)
  \<close>
  followed by the cells that create and zero the vectors and tables.\<close>

definition implicit_setup :: "problem \<Rightarrow> error + implicit_run" where
  "implicit_setup p =
     (let A = A_mat p;
          (S, cs) = lu_solver_new A []
      in case S of
           None \<Rightarrow> Inl SolverFailure
         | Some S \<Rightarrow> Inr \<lparr>A_glob = A, solver = S, vars = init p, calls = cs\<rparr>)"

text \<open>One iteration of the loop of the worked notebook: predictor, effective load,
  \<^verbatim>\<open>solver.solve(a_vec, f)\<close>, corrector, bookkeeping. The loop does not assign
  \<^verbatim>\<open>A\<close>; the solver object is the one the call hands back.\<close>

definition implicit_step :: "problem \<Rightarrow> nat \<Rightarrow> implicit_run \<Rightarrow> error + implicit_run" where
  "implicit_step p n g =
     (let s = predictor p (vars g);
          s = update_force p n s;
          (S, a, cs) = lu_solver_solve (solver g) (f_glob s) (calls g)
      in case bookkeeping p n (corrector p (s\<lparr>a_vec := a\<rparr>)) of
           Inl e \<Rightarrow> Inl e
         | Inr s' \<Rightarrow> Inr (g\<lparr>solver := S, vars := s', calls := cs\<rparr>))"

primrec implicit_loop :: "problem \<Rightarrow> nat \<Rightarrow> implicit_run \<Rightarrow> error + implicit_run" where
  "implicit_loop p 0 g = Inr g"
| "implicit_loop p (Suc k) g =
     (case implicit_loop p k g of Inl e \<Rightarrow> Inl e | Inr g' \<Rightarrow> implicit_step p k g')"

subsection \<open>Assumptions on the collaborators\<close>

text \<open>All operands have the size of the function space, and there is at least one time
  step (\<^verbatim>\<open>dt = t_end/num_steps\<close> raises otherwise).\<close>

definition wf_problem :: "problem \<Rightarrow> bool" where
  "wf_problem p \<longleftrightarrow>
     0 < num_steps p \<and>
     wf_mat (n_dofs p) (mass_form p) \<and> wf_mat (n_dofs p) (damping_form p) \<and>
     wf_mat (n_dofs p) (stiffness_form p) \<and> wf_bcs (n_dofs p) (bcs p) \<and>
     (\<forall>t. length (p_ext p t) = n_dofs p)"

text \<open>The contract of the direct solver on the effective matrix: in exact arithmetic
  \<^verbatim>\<open>solver.solve(a_vec, f)\<close> succeeds and stores the one solution of \<open>A\<cdot>a = f\<close>.
  It holds only if the matrix is nonsingular.\<close>

definition solver_exact :: "problem \<Rightarrow> bool" where
  "solver_exact p \<longleftrightarrow>
     (\<forall>b. length b = n_dofs p \<longrightarrow>
        (\<exists>x. LUSolver p (A_mat p) b = Some x \<and> length x = n_dofs p \<and> mult (A_mat p) x = b \<and>
             (\<forall>y. length y = n_dofs p \<and> mult (A_mat p) y = b \<longrightarrow> y = x)))"

text \<open>What each variant of \<^verbatim>\<open>compute_acceleration\<close> needs: no zero on the lumped
  diagonal (NumPy would divide by it and continue with \<^verbatim>\<open>inf\<close>), or the contract of
  the direct solver.\<close>

definition acceleration_ok :: "problem \<Rightarrow> bool" where
  "acceleration_ok p \<longleftrightarrow> (if use_lumped_mass p then 0 \<notin> set (M_lumped p) else solver_exact p)"

text \<open>The states of a run: the three vectors have the size of the function space, and
  the two tables have one row per time \<open>0, \<Delta>t, \<dots>, num_steps\<cdot>\<Delta>t\<close>.\<close>

definition wf_state :: "problem \<Rightarrow> state \<Rightarrow> bool" where
  "wf_state p s \<longleftrightarrow>
     length (u_vec s) = n_dofs p \<and> length (v_vec s) = n_dofs p \<and> length (a_vec s) = n_dofs p \<and>
     length (displ_tip s) = num_steps p + 1 \<and> length (energies s) = num_steps p + 1"

subsection \<open>Notions used to state the properties\<close>

text \<open>The effective matrix as the specification writes it, on the assembled forms:
  \<open>M + \<gamma>\<Delta>t\<cdot>C + \<beta>\<Delta>t\<^sup>2\<cdot>K\<close>, before the elimination of the boundary dofs.\<close>

definition effective_sum :: "problem \<Rightarrow> matrix" where
  "effective_sum p =
     mat_add (mat_add (mass_form p) (mat_scale (gamma p * dt p) (damping_form p)))
       (mat_scale (beta p * (dt p)\<^sup>2) (stiffness_form p))"


text \<open>A matrix is nonsingular when only the zero vector is mapped to zero, positive
  definite when its quadratic form is positive away from zero, and positive semidefinite
  when its quadratic form is nowhere negative.\<close>

definition nonsingular :: "nat \<Rightarrow> matrix \<Rightarrow> bool" where
  "nonsingular n A \<longleftrightarrow>
     (\<forall>x. length x = n \<and> mult A x = replicate n 0 \<longrightarrow> x = replicate n 0)"

definition pos_def :: "nat \<Rightarrow> matrix \<Rightarrow> bool" where
  "pos_def n A \<longleftrightarrow> (\<forall>x. length x = n \<and> x \<noteq> replicate n 0 \<longrightarrow> 0 < inner x (mult A x))"

definition pos_semidef :: "nat \<Rightarrow> matrix \<Rightarrow> bool" where
  "pos_semidef n A \<longleftrightarrow> (\<forall>x. length x = n \<longrightarrow> 0 \<le> inner x (mult A x))"

subsection \<open>Small instances\<close>

text \<open>A beam with two dofs, the first one clamped, two time steps with \<open>\<Delta>t = 1/2\<close>,
  and Cramer's rule as the direct solver.\<close>

definition cramer2 :: "matrix \<Rightarrow> vec \<Rightarrow> vec option" where
  "cramer2 A b =
     (let d = A ! 0 ! 0 * A ! 1 ! 1 - A ! 0 ! 1 * A ! 1 ! 0
      in if d = 0 then None
         else Some [(b ! 0 * A ! 1 ! 1 - A ! 0 ! 1 * b ! 1) / d,
                    (A ! 0 ! 0 * b ! 1 - A ! 1 ! 0 * b ! 0) / d])"

definition p0 :: problem where
  "p0 = \<lparr> t_end = 1, num_steps = 2, beta = 1/4, gamma = 1/2, use_lumped_mass = False,
          beta_exp = 0, gamma_exp = 1/2, E_mod = 4, rho = 1, l_e = 1,
          mass_form = [[2, 1], [1, 2]], damping_form = [[1, 0], [0, 1]],
          stiffness_form = [[1, - 1], [- 1, 1]], bcs = [[(0, 0)]],
          p_ext = (\<lambda>t. [0, t]), LUSolver = cramer2, tip_value = (\<lambda>u. u ! 1) \<rparr>"

text \<open>The same beam without load.\<close>

definition p0_unloaded :: problem where
  "p0_unloaded = p0\<lparr>p_ext := (\<lambda>t. [0, 0])\<rparr>"

text \<open>The explicit variant: lumped mass, \<open>\<beta> = 0\<close>, \<open>\<gamma> = 1/2\<close>. The critical time step of
  these instances is \<open>1/2\<close>; the first one runs with \<open>\<Delta>t = 1.01 \<times> 1/2\<close>, the second one with
  \<open>\<Delta>t = 0.5 \<times> 1/2\<close>, and the third one has for \<open>\<beta>\<close> the double \<^verbatim>\<open>1e-12\<close>, the
  tolerance itself.\<close>

definition p0_lumped :: problem where
  "p0_lumped = p0\<lparr>use_lumped_mass := True, beta := 0, t_end := 101/100\<rparr>"

definition p0_lumped_half :: problem where
  "p0_lumped_half = p0_lumped\<lparr>t_end := 1/2\<rparr>"

definition p0_lumped_atol :: problem where
  "p0_lumped_atol = p0_lumped\<lparr>beta := 4951760157141521 / 2 ^ 92\<rparr>"

text \<open>The beam loaded at both dofs, the clamped one included, and its explicit variant
  with \<open>\<Delta>t = 1/2\<close>.\<close>

definition p1 :: problem where
  "p1 = p0\<lparr>p_ext := (\<lambda>t. [t, t])\<rparr>"

definition p1_lumped :: problem where
  "p1_lumped = p1\<lparr>use_lumped_mass := True, beta := 0\<rparr>"

section \<open>Properties\<close>

subsection \<open>Vectors, matrices and boundary conditions\<close>

lemma length_zero [simp]: "length (zero x) = length x"
  by (simp add: zero_def)

lemma nth_zero [simp]: "i < length x \<Longrightarrow> zero x ! i = 0"
  by (simp add: zero_def)

lemma length_axpy [simp]: "length (axpy y \<alpha> x) = min (length y) (length x)"
  by (simp add: axpy_def)

lemma nth_axpy [simp]:
  "i < length y \<Longrightarrow> i < length x \<Longrightarrow> axpy y \<alpha> x ! i = \<alpha> * x ! i + y ! i"
  by (simp add: axpy_def)

lemma length_mult [simp]: "length (mult A x) = length A"
  by (simp add: mult_def)

lemma nth_mult: "i < length A \<Longrightarrow> mult A x ! i = inner (A ! i) x"
  by (simp add: mult_def)

lemma length_bc_apply_vec [simp]: "length (bc_apply_vec bc b) = length b"
  unfolding bc_apply_vec_def by (induction bc arbitrary: b) (auto split: prod.splits)

lemma length_bcs_apply_vec [simp]: "length (bcs_apply_vec bs b) = length b"
  unfolding bcs_apply_vec_def by (induction bs arbitrary: b) auto

lemma bcs_apply_vec_concat:
  "bcs_apply_vec bs b = fold (\<lambda>(i, g) b. b[i := g]) (concat bs) b"
  unfolding bcs_apply_vec_def bc_apply_vec_def
  by (induction bs arbitrary: b) auto

lemma fold_update_other:
  "i \<notin> fst ` set ps \<Longrightarrow> fold (\<lambda>(i, g) b. b[i := g]) ps b ! i = b ! i"
  by (induction ps arbitrary: b) (auto split: prod.splits)

lemma fold_update_zero:
  "list_all (\<lambda>(i, g). g = 0) ps \<Longrightarrow> i \<in> fst ` set ps \<Longrightarrow> i < length b \<Longrightarrow>
     fold (\<lambda>(i, g) b. b[i := g]) ps b ! i = (0::real)"
proof (induction ps arbitrary: b)
  case Nil
  then show ?case by simp
next
  case (Cons q ps)
  obtain j g where q: "q = (j, g)" by (cases q)
  show ?case
  proof (cases "i \<in> fst ` set ps")
    case True
    with Cons show ?thesis by (simp add: q)
  next
    case False
    with Cons.prems have "j = i" "g = 0" by (auto simp: q)
    with False Cons.prems show ?thesis
      by (simp add: q fold_update_other)
  qed
qed

lemma nth_bcs_apply_vec_free:
  "i \<notin> bc_dofs bs \<Longrightarrow> bcs_apply_vec bs b ! i = b ! i"
  by (simp add: bcs_apply_vec_concat bc_dofs_def fold_update_other)

lemma nth_bcs_apply_vec_fixed:
  "homogeneous bs \<Longrightarrow> i \<in> bc_dofs bs \<Longrightarrow> i < length b \<Longrightarrow> bcs_apply_vec bs b ! i = 0"
  by (simp add: bcs_apply_vec_concat bc_dofs_def homogeneous_def fold_update_zero)

lemma wf_matD: "wf_mat n A \<Longrightarrow> length A = n" "wf_mat n A \<Longrightarrow> i < n \<Longrightarrow> length (A ! i) = n"
  by (auto simp: wf_mat_def list_all_length)

lemma wf_matI: "length A = n \<Longrightarrow> (\<And>i. i < n \<Longrightarrow> length (A ! i) = n) \<Longrightarrow> wf_mat n A"
  by (auto simp: wf_mat_def list_all_length)

lemma wf_eliminate:
  assumes "wf_mat n A"
  shows "wf_mat n (eliminate k A)"
proof (rule wf_matI)
  show "length (eliminate k A) = n"
    using assms by (simp add: eliminate_def wf_matD)
next
  fix i assume "i < n"
  with assms show "length (eliminate k A ! i) = n"
    by (cases "i = k") (simp_all add: eliminate_def wf_matD)
qed

lemma nth_eliminate:
  "wf_mat n A \<Longrightarrow> k < n \<Longrightarrow> i < n \<Longrightarrow> j < n \<Longrightarrow>
     eliminate k A ! i ! j = (if i = k \<or> j = k then (if i = j then 1 else 0) else A ! i ! j)"
  by (auto simp: eliminate_def wf_matD nth_list_update)

lemma wf_fold_eliminate: "wf_mat n A \<Longrightarrow> wf_mat n (fold eliminate ks A)"
  by (induction ks arbitrary: A) (auto simp: wf_eliminate)

lemma nth_fold_eliminate:
  "wf_mat n A \<Longrightarrow> \<forall>k\<in>set ks. k < n \<Longrightarrow> i < n \<Longrightarrow> j < n \<Longrightarrow>
     fold eliminate ks A ! i ! j =
       (if i \<in> set ks \<or> j \<in> set ks then (if i = j then 1 else 0) else A ! i ! j)"
proof (induction ks arbitrary: A)
  case Nil
  then show ?case by simp
next
  case (Cons k ks)
  have "wf_mat n (eliminate k A)" using Cons.prems(1) by (rule wf_eliminate)
  moreover have "\<forall>k\<in>set ks. k < n" "k < n" using Cons.prems(2) by auto
  ultimately show ?case
    using Cons.IH [of "eliminate k A"] Cons.prems(1,3,4)
    by (auto simp: nth_eliminate)
qed

lemma bcs_apply_mat_fold:
  "bcs_apply_mat bs A = fold eliminate (map fst (concat bs)) A"
proof -
  have one: "bc_apply_mat bc B = fold eliminate (map fst bc) B" for bc B
    unfolding bc_apply_mat_def by (induction bc arbitrary: B) (auto split: prod.splits)
  show ?thesis
    unfolding bcs_apply_mat_def by (induction bs arbitrary: A) (auto simp: one)
qed

lemma wf_bcsD: "wf_bcs n bs \<Longrightarrow> i \<in> bc_dofs bs \<Longrightarrow> i < n"
  by (fastforce simp: wf_bcs_def bc_dofs_def list_all_iff)

lemma wf_bcs_apply_mat: "wf_mat n A \<Longrightarrow> wf_mat n (bcs_apply_mat bs A)"
  by (simp add: bcs_apply_mat_fold wf_fold_eliminate)

lemma nth_bcs_apply_mat:
  "wf_mat n A \<Longrightarrow> wf_bcs n bs \<Longrightarrow> i < n \<Longrightarrow> j < n \<Longrightarrow>
     bcs_apply_mat bs A ! i ! j =
       (if i \<in> bc_dofs bs \<or> j \<in> bc_dofs bs then (if i = j then 1 else 0) else A ! i ! j)"
proof -
  assume a: "wf_mat n A" "wf_bcs n bs" "i < n" "j < n"
  have "\<forall>k\<in>set (map fst (concat bs)). k < n"
    using a(2) wf_bcsD [of n bs] by (auto simp: bc_dofs_def)
  from nth_fold_eliminate [OF a(1) this a(3,4)] show ?thesis
    by (simp add: bcs_apply_mat_fold bc_dofs_def)
qed

lemma inner_unit:
  "length x = n \<Longrightarrow> i < n \<Longrightarrow> inner ((replicate n 0)[i := 1]) x = x ! i"
proof (induction n arbitrary: i x)
  case 0
  then show ?case by simp
next
  case (Suc n)
  then obtain y ys where x: "x = y # ys" "length ys = n" by (cases x) auto
  have z: "inner (replicate n 0) ys = 0" for ys :: vec
    unfolding inner_def by (induction n arbitrary: ys) (auto simp: zip_Cons1 split: list.splits)
  show ?case
  proof (cases i)
    case 0
    then show ?thesis using z [of ys] by (simp add: x inner_def)
  next
    case (Suc i')
    with Suc.prems have "i' < n" by simp
    from Suc.IH [OF x(2) this] show ?thesis by (simp add: x Suc inner_def)
  qed
qed

lemma inner_unit_row:
  assumes "length r = n" "length x = n" "i < n"
    and "\<And>j. j < n \<Longrightarrow> r ! j = (if i = j then 1 else 0)"
  shows "inner r x = x ! i"
proof -
  have "r = (replicate n 0)[i := 1]"
    using assms by (intro nth_equalityI) (auto simp: nth_list_update)
  then show ?thesis using assms(2,3) by (simp add: inner_unit)
qed

lemma mult_bcs_fixed_row:
  assumes "wf_mat n A" "wf_bcs n bs" "i \<in> bc_dofs bs" "length x = n"
  shows "mult (bcs_apply_mat bs A) x ! i = x ! i"
proof -
  have i: "i < n" using assms(2,3) by (rule wf_bcsD)
  have wf: "wf_mat n (bcs_apply_mat bs A)" using assms(1) by (rule wf_bcs_apply_mat)
  have "inner (bcs_apply_mat bs A ! i) x = x ! i"
    using wf i assms by (intro inner_unit_row [where n = n]) (auto simp: wf_matD nth_bcs_apply_mat)
  then show ?thesis using wf i by (simp add: nth_mult wf_matD)
qed

lemma axpy_zeros [simp]: "axpy (replicate n 0) \<alpha> (replicate n 0) = replicate n 0"
  by (rule nth_equalityI) simp_all

lemma inner_zeros_right: "inner r (replicate n 0) = 0"
proof (induction r arbitrary: n)
  case Nil
  then show ?case by (simp add: inner_def)
next
  case (Cons x r)
  then show ?case by (cases n) (simp_all add: inner_def)
qed

lemma mult_zeros: "mult A (replicate n 0) = replicate (length A) 0"
  by (rule nth_equalityI) (simp_all add: nth_mult inner_zeros_right)

lemma bcs_apply_vec_zeros:
  "homogeneous bs \<Longrightarrow> bcs_apply_vec bs (replicate n 0) = replicate n 0"
proof (rule nth_equalityI)
  show "length (bcs_apply_vec bs (replicate n 0)) = length (replicate n (0::real))" by simp
next
  fix i assume h: "homogeneous bs" and "i < length (bcs_apply_vec bs (replicate n 0))"
  then have i: "i < n" by simp
  show "bcs_apply_vec bs (replicate n 0) ! i = replicate n 0 ! i"
  proof (cases "i \<in> bc_dofs bs")
    case True
    with h i show ?thesis by (simp add: nth_bcs_apply_vec_fixed)
  next
    case False
    with i show ?thesis by (simp add: nth_bcs_apply_vec_free)
  qed
qed

lemma map2_times_zeros: "length m = n \<Longrightarrow> map2 (*) m (replicate n (0::real)) = replicate n 0"
  by (rule nth_equalityI) simp_all

lemma bcs_apply_vec_id:
  assumes "homogeneous bs" "\<forall>c\<in>bc_dofs bs. f ! c = 0"
  shows "bcs_apply_vec bs f = f"
proof (rule nth_equalityI)
  show "length (bcs_apply_vec bs f) = length f" by simp
next
  fix i assume "i < length (bcs_apply_vec bs f)"
  then have i: "i < length f" by simp
  show "bcs_apply_vec bs f ! i = f ! i"
  proof (cases "i \<in> bc_dofs bs")
    case True
    with assms i show ?thesis by (simp add: nth_bcs_apply_vec_fixed)
  next
    case False
    then show ?thesis by (simp add: nth_bcs_apply_vec_free)
  qed
qed

lemma mat_eqI:
  assumes "wf_mat n A" "wf_mat n B" "\<And>i j. i < n \<Longrightarrow> j < n \<Longrightarrow> A ! i ! j = B ! i ! j"
  shows "A = B"
proof (rule nth_equalityI)
  show "length A = length B" using assms(1,2) by (simp add: wf_matD)
next
  fix i assume "i < length A"
  then have i: "i < n" using assms(1) by (simp add: wf_matD)
  show "A ! i = B ! i"
    using assms i by (intro nth_equalityI) (simp_all add: wf_matD)
qed

lemma inner_sum: "length x = n \<Longrightarrow> length y = n \<Longrightarrow> inner x y = (\<Sum>i<n. x ! i * y ! i)"
proof -
  assume l: "length x = n" "length y = n"
  have "inner x y = (\<Sum>i = 0..<length (map2 (*) x y). map2 (*) x y ! i)"
    unfolding inner_def by (rule sum_list_sum_nth)
  also have "\<dots> = (\<Sum>i = 0..<n. x ! i * y ! i)"
    using l by (intro sum.cong) simp_all
  finally show ?thesis by (simp add: atLeast0LessThan)
qed

lemma inner_ones: "length r = n \<Longrightarrow> inner r (replicate n 1) = sum_list r"
proof (induction r arbitrary: n)
  case Nil
  then show ?case by (simp add: inner_def)
next
  case (Cons x r)
  then obtain m where "n = Suc m" "length r = m" by (cases n) auto
  with Cons.IH [of m] show ?case by (simp add: inner_def)
qed

lemma sum_list_map2_add:
  "length r = length t \<Longrightarrow> sum_list (map2 (+) r t) = sum_list r + sum_list (t :: real list)"
  by (induction r t rule: list_induct2) simp_all

lemma sum_list_scale: "sum_list (map ((*) c) r) = c * sum_list (r :: real list)"
  by (induction r) (simp_all add: algebra_simps)

lemma symmetricI:
  assumes "length A = n" "\<And>i j. i < n \<Longrightarrow> j < n \<Longrightarrow> A ! i ! j = A ! j ! i"
  shows "symmetric A"
  using assms by (simp add: symmetric_def list_all_iff)

lemma symmetricD: "symmetric A \<Longrightarrow> i < length A \<Longrightarrow> j < length A \<Longrightarrow> A ! i ! j = A ! j ! i"
  by (simp add: symmetric_def list_all_iff)

lemma symmetric_bcs_apply_mat:
  assumes "wf_mat n A" "wf_bcs n bs" "symmetric A"
  shows "symmetric (bcs_apply_mat bs A)"
proof (rule symmetricI [where n = n])
  show "length (bcs_apply_mat bs A) = n"
    using wf_bcs_apply_mat [OF assms(1), of bs] by (simp add: wf_matD)
next
  fix i j assume ij: "i < n" "j < n"
  have "A ! i ! j = A ! j ! i"
    using assms(1,3) ij by (simp add: symmetricD wf_matD)
  then show "bcs_apply_mat bs A ! i ! j = bcs_apply_mat bs A ! j ! i"
    using ij by (auto simp: nth_bcs_apply_mat [OF assms(1,2)])
qed

lemma pos_def_nonsingular:
  assumes "pos_def n A"
  shows "nonsingular n A"
  unfolding nonsingular_def
proof (intro allI impI)
  fix x :: vec assume x: "length x = n \<and> mult A x = replicate n 0"
  show "x = replicate n 0"
  proof (rule ccontr)
    assume "x \<noteq> replicate n 0"
    with assms x have "0 < inner x (mult A x)" unfolding pos_def_def by blast
    with x show False by (simp add: inner_zeros_right)
  qed
qed

lemma mult_bcs_free_row:
  assumes "wf_mat n A" "wf_bcs n bs" "length x = n" "i < n" "i \<notin> bc_dofs bs"
  shows "mult (bcs_apply_mat bs A) x ! i =
     inner (A ! i) (map (\<lambda>j. if j \<in> bc_dofs bs then 0 else x ! j) [0..<n])"
proof -
  let ?B = "bcs_apply_mat bs A"
  let ?y = "map (\<lambda>j. if j \<in> bc_dofs bs then 0 else x ! j) [0..<n]"
  have wB: "wf_mat n ?B" using assms(1) by (rule wf_bcs_apply_mat)
  have "mult ?B x ! i = inner (?B ! i) x"
    using wB assms(4) by (simp add: nth_mult wf_matD)
  also have "\<dots> = (\<Sum>j<n. ?B ! i ! j * x ! j)"
    using wB assms(3,4) by (intro inner_sum) (simp_all add: wf_matD)
  also have "\<dots> = (\<Sum>j<n. A ! i ! j * ?y ! j)"
    using assms(4,5) by (intro sum.cong) (auto simp: nth_bcs_apply_mat [OF assms(1,2)])
  also have "\<dots> = inner (A ! i) ?y"
    using assms(1,4) by (intro inner_sum [symmetric]) (simp_all add: wf_matD)
  finally show ?thesis .
qed

lemma quadratic_form_eliminated:
  assumes "wf_mat n A" "wf_bcs n bs" "length x = n"
  shows "inner x (mult (bcs_apply_mat bs A) x) =
     inner (map (\<lambda>j. if j \<in> bc_dofs bs then 0 else x ! j) [0..<n])
        (mult A (map (\<lambda>j. if j \<in> bc_dofs bs then 0 else x ! j) [0..<n])) +
     (\<Sum>i<n. if i \<in> bc_dofs bs then (x ! i)\<^sup>2 else 0)"
proof -
  let ?B = "bcs_apply_mat bs A"
  let ?y = "map (\<lambda>j. if j \<in> bc_dofs bs then 0 else x ! j) [0..<n]"
  have wB: "wf_mat n ?B" using assms(1) by (rule wf_bcs_apply_mat)
  have lB: "length (mult ?B x) = n" using wB by (simp add: wf_matD)
  have lA: "length (mult A ?y) = n" using assms(1) by (simp add: wf_matD)
  have tm: "x ! i * mult ?B x ! i =
      ?y ! i * mult A ?y ! i + (if i \<in> bc_dofs bs then (x ! i)\<^sup>2 else 0)" if "i < n" for i
  proof (cases "i \<in> bc_dofs bs")
    case True
    with mult_bcs_fixed_row [OF assms(1,2) True assms(3)] that show ?thesis
      by (simp add: power2_eq_square)
  next
    case False
    with mult_bcs_free_row [OF assms that False] that assms(1) show ?thesis
      by (simp add: nth_mult wf_matD)
  qed
  have "inner x (mult ?B x) = (\<Sum>i<n. x ! i * mult ?B x ! i)"
    using assms(3) lB by (rule inner_sum)
  also have "\<dots> = (\<Sum>i<n. ?y ! i * mult A ?y ! i + (if i \<in> bc_dofs bs then (x ! i)\<^sup>2 else 0))"
    by (intro sum.cong) (simp_all add: tm)
  also have "\<dots> = (\<Sum>i<n. ?y ! i * mult A ?y ! i) +
      (\<Sum>i<n. if i \<in> bc_dofs bs then (x ! i)\<^sup>2 else 0)"
    by (rule sum.distrib)
  also have "(\<Sum>i<n. ?y ! i * mult A ?y ! i) = inner ?y (mult A ?y)"
    using lA by (intro inner_sum [symmetric]) simp_all
  finally show ?thesis .
qed

lemma pos_def_bcs_apply_mat:
  assumes "wf_mat n A" "wf_bcs n bs" "pos_def n A"
  shows "pos_def n (bcs_apply_mat bs A)"
  unfolding pos_def_def
proof (intro allI impI)
  fix x :: vec assume x: "length x = n \<and> x \<noteq> replicate n 0"
  let ?y = "map (\<lambda>j. if j \<in> bc_dofs bs then 0 else x ! j) [0..<n]"
  let ?S = "\<Sum>i<n. if i \<in> bc_dofs bs then (x ! i)\<^sup>2 else 0"
  have q: "inner x (mult (bcs_apply_mat bs A) x) = inner ?y (mult A ?y) + ?S"
    using assms(1,2) x by (intro quadratic_form_eliminated) simp_all
  have S0: "0 \<le> ?S" by (intro sum_nonneg) simp
  show "0 < inner x (mult (bcs_apply_mat bs A) x)"
  proof (cases "?y = replicate n 0")
    case False
    moreover have "length ?y = n" by simp
    ultimately have "0 < inner ?y (mult A ?y)" using assms(3) unfolding pos_def_def by blast
    with S0 q show ?thesis by simp
  next
    case True
    from x obtain i where i: "i < n" "x ! i \<noteq> 0"
      by (auto simp: list_eq_iff_nth_eq)
    have "?y ! i = 0" using i(1) by (simp only: True nth_replicate)
    with i have iD: "i \<in> bc_dofs bs" by (simp split: if_splits)
    have "(if i \<in> bc_dofs bs then (x ! i)\<^sup>2 else 0) \<le> ?S"
      using i(1) by (intro member_le_sum) simp_all
    then have "(x ! i)\<^sup>2 \<le> ?S" using iD by simp
    moreover have "0 < (x ! i)\<^sup>2" using i(2) by simp
    ultimately have "0 < ?S" by (rule less_le_trans [rotated])
    moreover have "inner ?y (mult A ?y) = 0"
      unfolding True by (simp add: mult_zeros inner_zeros_right)
    ultimately show ?thesis using q by simp
  qed
qed


text \<open>Bilinear forms: a symmetric positive semidefinite matrix maps a vector to zero
  as soon as its quadratic form vanishes there.\<close>

lemma inner_commute: "inner x y = inner y x"
proof -
  have "map2 (*) x y = map2 (*) y (x :: vec)"
    by (induction x arbitrary: y) (auto simp: zip_Cons1 mult.commute split: list.splits)
  then show ?thesis by (simp add: inner_def)
qed

lemma inner_axpy_left:
  assumes "length x = n" "length y = n" "length z = n"
  shows "inner (axpy x t y) z = inner x z + t * inner y z"
proof -
  have "inner (axpy x t y) z = (\<Sum>i<n. axpy x t y ! i * z ! i)"
    using assms by (intro inner_sum) simp_all
  also have "\<dots> = (\<Sum>i<n. x ! i * z ! i + t * (y ! i * z ! i))"
    using assms by (intro sum.cong) (simp_all add: algebra_simps)
  also have "\<dots> = (\<Sum>i<n. x ! i * z ! i) + t * (\<Sum>i<n. y ! i * z ! i)"
    by (simp add: sum.distrib sum_distrib_left)
  finally show ?thesis using assms by (simp add: inner_sum)
qed

lemma inner_axpy_right:
  assumes "length x = n" "length y = n" "length z = n"
  shows "inner z (axpy x t y) = inner z x + t * inner z y"
  using inner_axpy_left [OF assms] by (simp add: inner_commute)

lemma mult_axpy:
  assumes "wf_mat n A" "length x = n" "length y = n"
  shows "mult A (axpy x t y) = axpy (mult A x) t (mult A y)"
proof (rule nth_equalityI)
  show "length (mult A (axpy x t y)) = length (axpy (mult A x) t (mult A y))" by simp
next
  fix i assume "i < length (mult A (axpy x t y))"
  then have i: "i < n" using assms(1) by (simp add: wf_matD)
  with assms show "mult A (axpy x t y) ! i = axpy (mult A x) t (mult A y) ! i"
    by (simp add: nth_mult wf_matD inner_axpy_right [where n = n])
qed

lemma bilinear_sum:
  assumes "wf_mat n A" "length x = n" "length y = n"
  shows "inner x (mult A y) = (\<Sum>i<n. \<Sum>j<n. x ! i * A ! i ! j * y ! j)"
proof -
  have "inner x (mult A y) = (\<Sum>i<n. x ! i * mult A y ! i)"
    using assms by (intro inner_sum) (simp_all add: wf_matD)
  also have "\<dots> = (\<Sum>i<n. x ! i * (\<Sum>j<n. A ! i ! j * y ! j))"
    using assms by (intro sum.cong) (simp_all add: nth_mult wf_matD inner_sum [where n = n])
  also have "\<dots> = (\<Sum>i<n. \<Sum>j<n. x ! i * A ! i ! j * y ! j)"
    by (simp add: sum_distrib_left mult.assoc)
  finally show ?thesis .
qed

lemma symmetric_bilinear:
  assumes "wf_mat n A" "symmetric A" "length x = n" "length y = n"
  shows "inner x (mult A y) = inner y (mult A x)"
proof -
  have "inner x (mult A y) = (\<Sum>i<n. \<Sum>j<n. x ! i * A ! i ! j * y ! j)"
    using assms(1,3,4) by (rule bilinear_sum)
  also have "\<dots> = (\<Sum>j<n. \<Sum>i<n. x ! i * A ! i ! j * y ! j)"
    by (rule sum.swap)
  also have "\<dots> = (\<Sum>j<n. \<Sum>i<n. y ! j * A ! j ! i * x ! i)"
    using assms(1,2) by (intro sum.cong refl) (simp add: symmetricD wf_matD mult_ac)
  also have "\<dots> = inner y (mult A x)"
    using assms(1,4,3) by (rule bilinear_sum [symmetric])
  finally show ?thesis .
qed

lemma inner_self_zero:
  assumes "inner z z = 0"
  shows "z = replicate (length z) 0"
proof -
  have s: "inner z z = (\<Sum>i<length z. (z ! i)\<^sup>2)"
    by (simp add: inner_sum [where n = "length z"] power2_eq_square)
  have "z ! i = 0" if "i < length z" for i
  proof -
    have "(z ! i)\<^sup>2 \<le> (\<Sum>i<length z. (z ! i)\<^sup>2)"
      using that by (intro member_le_sum) simp_all
    with assms s have "(z ! i)\<^sup>2 \<le> 0" by simp
    then show ?thesis by simp
  qed
  then show ?thesis by (intro nth_equalityI) simp_all
qed

lemma inner_self_nonneg: "0 \<le> inner z z"
  by (simp add: inner_sum [where n = "length z"] sum_nonneg)

lemma psd_kernel:
  assumes "wf_mat n A" "symmetric A" "pos_semidef n A" "length x = n"
    and "inner x (mult A x) = 0"
  shows "mult A x = replicate n 0"
proof -
  let ?z = "mult A x"
  have lz: "length ?z = n" using assms(1) by (simp add: wf_matD)
  define d where "d = inner ?z ?z"
  define c where "c = inner ?z (mult A ?z)"
  have c0: "0 \<le> c" using assms(3) lz unfolding c_def pos_semidef_def by blast
  have d0: "0 \<le> d" unfolding d_def by (rule inner_self_nonneg)
  have q: "inner (axpy x t ?z) (mult A (axpy x t ?z)) = 2 * t * d + t\<^sup>2 * c" for t
  proof -
    have "inner (axpy x t ?z) (mult A (axpy x t ?z)) =
        inner (axpy x t ?z) (axpy ?z t (mult A ?z))"
      using assms(1,4) lz by (simp add: mult_axpy)
    also have "\<dots> = inner x (axpy ?z t (mult A ?z)) + t * inner ?z (axpy ?z t (mult A ?z))"
      using assms(1,4) lz by (intro inner_axpy_left [where n = n]) (simp_all add: wf_matD)
    also have "inner x (axpy ?z t (mult A ?z)) = inner x ?z + t * inner x (mult A ?z)"
      using assms(1,4) lz by (intro inner_axpy_right [where n = n]) (simp_all add: wf_matD)
    also have "inner ?z (axpy ?z t (mult A ?z)) = inner ?z ?z + t * inner ?z (mult A ?z)"
      using assms(1,4) lz by (intro inner_axpy_right [where n = n]) (simp_all add: wf_matD)
    also have "inner x (mult A ?z) = inner ?z ?z"
      using assms(1,2,4) lz by (rule symmetric_bilinear)
    finally show ?thesis
      using assms(5) by (simp add: d_def c_def algebra_simps power2_eq_square)
  qed
  have nn: "0 \<le> 2 * t * d + t\<^sup>2 * c" for t
  proof -
    have "length (axpy x t ?z) = n" using assms(4) lz by simp
    with assms(3) have "0 \<le> inner (axpy x t ?z) (mult A (axpy x t ?z))"
      unfolding pos_semidef_def by blast
    then show ?thesis by (simp add: q)
  qed
  have "d = 0"
  proof (rule ccontr)
    assume "d \<noteq> 0"
    with d0 have dp: "0 < d" by simp
    define t where "t = - d / (c + 1)"
    have c1: "0 < c + 1" using c0 by simp
    have tn: "t < 0" unfolding t_def using dp c1 by (simp add: divide_neg_pos)
    have "t * c = - d * (c / (c + 1))" by (simp add: t_def)
    moreover have "c / (c + 1) < 1" using c1 by simp
    ultimately have "- d < t * c" using dp
      by (metis mult_less_cancel_left_pos mult.right_neutral neg_less_iff_less mult_minus_left)
    then have "0 < 2 * d + t * c" using dp by simp
    with tn have "t * (2 * d + t * c) < 0" by (rule mult_neg_pos)
    moreover have "t * (2 * d + t * c) = 2 * t * d + t\<^sup>2 * c"
      by (simp add: algebra_simps power2_eq_square)
    ultimately show False using nn [of t] by simp
  qed
  then have "?z = replicate (length ?z) 0" unfolding d_def by (rule inner_self_zero)
  then show ?thesis by (simp only: lz)
qed

lemma psd_nonsingular_pos_def:
  assumes "wf_mat n A" "symmetric A" "pos_semidef n A" "nonsingular n A"
  shows "pos_def n A"
  unfolding pos_def_def
proof (intro allI impI)
  fix x :: vec assume x: "length x = n \<and> x \<noteq> replicate n 0"
  with assms(3) have "0 \<le> inner x (mult A x)" unfolding pos_semidef_def by blast
  moreover have "inner x (mult A x) \<noteq> 0"
  proof
    assume "inner x (mult A x) = 0"
    with assms(1-3) x have "mult A x = replicate n 0" by (intro psd_kernel) simp_all
    with assms(4) x show False unfolding nonsingular_def by blast
  qed
  ultimately show "0 < inner x (mult A x)" by simp
qed

lemma pos_semidef_bcs_apply_mat:
  assumes "wf_mat n A" "wf_bcs n bs" "pos_semidef n A"
  shows "pos_semidef n (bcs_apply_mat bs A)"
  unfolding pos_semidef_def
proof (intro allI impI)
  fix x :: vec assume x: "length x = n"
  let ?y = "map (\<lambda>j. if j \<in> bc_dofs bs then 0 else x ! j) [0..<n]"
  have "0 \<le> inner ?y (mult A ?y)" using assms(3) unfolding pos_semidef_def by simp
  moreover have "0 \<le> (\<Sum>i<n. if i \<in> bc_dofs bs then (x ! i)\<^sup>2 else 0)"
    by (intro sum_nonneg) simp
  ultimately show "0 \<le> inner x (mult (bcs_apply_mat bs A) x)"
    using quadratic_form_eliminated [OF assms(1,2) x] by simp
qed

subsection \<open>Sizes of the operators\<close>

lemma wf_mat_add: "wf_mat n A \<Longrightarrow> wf_mat n B \<Longrightarrow> wf_mat n (mat_add A B)"
  by (rule wf_matI) (auto simp: mat_add_def wf_matD)

lemma wf_mat_scale: "wf_mat n A \<Longrightarrow> wf_mat n (mat_scale c A)"
  by (rule wf_matI) (auto simp: mat_scale_def wf_matD)

lemma nth_mat_add:
  "wf_mat n A \<Longrightarrow> wf_mat n B \<Longrightarrow> i < n \<Longrightarrow> j < n \<Longrightarrow> mat_add A B ! i ! j = A ! i ! j + B ! i ! j"
  by (simp add: mat_add_def wf_matD)

lemma nth_mat_scale:
  "wf_mat n A \<Longrightarrow> i < n \<Longrightarrow> j < n \<Longrightarrow> mat_scale c A ! i ! j = c * A ! i ! j"
  by (simp add: mat_scale_def wf_matD)

lemma wf_problemD:
  assumes "wf_problem p"
  shows "wf_mat (n_dofs p) (mass_form p)" "wf_mat (n_dofs p) (damping_form p)"
    "wf_mat (n_dofs p) (stiffness_form p)" "wf_bcs (n_dofs p) (bcs p)"
    "length (p_ext p t) = n_dofs p" "0 < num_steps p"
  using assms by (simp_all add: wf_problem_def)

lemma wf_C_mat: "wf_problem p \<Longrightarrow> wf_mat (n_dofs p) (C_mat p)"
  by (simp add: wf_problemD C_mat_def wf_bcs_apply_mat)

lemma wf_K_mat: "wf_problem p \<Longrightarrow> wf_mat (n_dofs p) (K_mat p)"
  by (simp add: wf_problemD K_mat_def wf_bcs_apply_mat)

lemma wf_A_sum:
  "wf_problem p \<Longrightarrow>
     wf_mat (n_dofs p) (mat_add (mat_add (mass_form p) (mat_scale c (C_mat p)))
        (mat_scale d (K_mat p)))"
  by (intro wf_mat_add wf_mat_scale wf_C_mat wf_K_mat wf_problemD)

lemma wf_A_mat: "wf_problem p \<Longrightarrow> wf_mat (n_dofs p) (A_mat p)"
  by (simp add: A_mat_def Let_def wf_bcs_apply_mat wf_A_sum)

lemma length_C_mat [simp]: "wf_problem p \<Longrightarrow> length (C_mat p) = n_dofs p"
  using wf_C_mat [of p] by (simp add: wf_matD)

lemma length_K_mat [simp]: "wf_problem p \<Longrightarrow> length (K_mat p) = n_dofs p"
  using wf_K_mat [of p] by (simp add: wf_matD)

lemma length_A_mat [simp]: "wf_problem p \<Longrightarrow> length (A_mat p) = n_dofs p"
  using wf_A_mat [of p] by (simp add: wf_matD)

lemma length_M_lumped:
  assumes "wf_problem p"
  shows "length (M_lumped p) = n_dofs p"
proof -
  have "wf_mat (n_dofs p) (mat_add (mass_form p) (mat_scale (0.5 * dt p) (damping_form p)))"
    using assms by (intro wf_mat_add wf_mat_scale wf_problemD)
  then show ?thesis by (simp add: M_lumped_def Let_def wf_matD)
qed

lemma A_mat_fixed_row:
  "wf_problem p \<Longrightarrow> i \<in> bc_dofs (bcs p) \<Longrightarrow> length x = n_dofs p \<Longrightarrow>
     mult (A_mat p) x ! i = x ! i"
  unfolding A_mat_def Let_def
  by (rule mult_bcs_fixed_row [where n = "n_dofs p"]) (simp_all add: wf_A_sum wf_problemD)

lemma wf_effective_sum: "wf_problem p \<Longrightarrow> wf_mat (n_dofs p) (effective_sum p)"
  unfolding effective_sum_def by (intro wf_mat_add wf_mat_scale wf_problemD)

lemma nth_effective_sum:
  assumes "wf_problem p" "i < n_dofs p" "j < n_dofs p"
  shows "effective_sum p ! i ! j =
     mass_form p ! i ! j + gamma p * dt p * damping_form p ! i ! j +
     beta p * (dt p)\<^sup>2 * stiffness_form p ! i ! j"
proof -
  note w = wf_problemD [OF assms(1)]
  have "wf_mat (n_dofs p) (mat_add (mass_form p) (mat_scale (gamma p * dt p) (damping_form p)))"
    by (intro wf_mat_add wf_mat_scale w)
  then show ?thesis
    unfolding effective_sum_def using assms(2,3) w(1-3)
    by (simp add: nth_mat_add [where n = "n_dofs p"] nth_mat_scale [where n = "n_dofs p"]
        wf_mat_scale)
qed

lemma nth_A_mat:
  assumes "wf_problem p" "i < n_dofs p" "j < n_dofs p"
  shows "A_mat p ! i ! j =
     (if i \<in> bc_dofs (bcs p) \<or> j \<in> bc_dofs (bcs p) then (if i = j then 1 else 0)
      else mass_form p ! i ! j + gamma p * dt p * damping_form p ! i ! j +
           beta p * (dt p)\<^sup>2 * stiffness_form p ! i ! j)"
proof -
  note w = wf_problemD [OF assms(1)]
  let ?S = "mat_add (mat_add (mass_form p) (mat_scale (gamma p * dt p) (C_mat p)))
        (mat_scale (beta p * (dt p)\<^sup>2) (K_mat p))"
  have wS: "wf_mat (n_dofs p) ?S" using assms(1) by (rule wf_A_sum)
  have w1: "wf_mat (n_dofs p) (mat_add (mass_form p) (mat_scale (gamma p * dt p) (C_mat p)))"
    using assms(1) by (intro wf_mat_add wf_mat_scale w wf_C_mat)
  have S: "?S ! i ! j = mass_form p ! i ! j + gamma p * dt p * C_mat p ! i ! j +
     beta p * (dt p)\<^sup>2 * K_mat p ! i ! j"
    using assms w(1) w1 wf_C_mat [OF assms(1)] wf_K_mat [OF assms(1)]
    by (simp add: nth_mat_add [where n = "n_dofs p"] nth_mat_scale [where n = "n_dofs p"]
        wf_mat_scale)
  have A: "A_mat p ! i ! j =
     (if i \<in> bc_dofs (bcs p) \<or> j \<in> bc_dofs (bcs p) then (if i = j then 1 else 0)
      else ?S ! i ! j)"
    unfolding A_mat_def Let_def using wS w(4) assms(2,3) by (rule nth_bcs_apply_mat)
  have C: "C_mat p ! i ! j = damping_form p ! i ! j"
    if "i \<notin> bc_dofs (bcs p)" "j \<notin> bc_dofs (bcs p)"
    unfolding C_mat_def using that nth_bcs_apply_mat [OF w(2) w(4) assms(2,3)] by simp
  have K: "K_mat p ! i ! j = stiffness_form p ! i ! j"
    if "i \<notin> bc_dofs (bcs p)" "j \<notin> bc_dofs (bcs p)"
    unfolding K_mat_def using that nth_bcs_apply_mat [OF w(3) w(4) assms(2,3)] by simp
  show ?thesis unfolding A S using C K by simp
qed

lemma A_mat_eliminated_sum:
  assumes "wf_problem p"
  shows "A_mat p = bcs_apply_mat (bcs p) (effective_sum p)"
proof (rule mat_eqI [where n = "n_dofs p"])
  show "wf_mat (n_dofs p) (A_mat p)" using assms by (rule wf_A_mat)
  show "wf_mat (n_dofs p) (bcs_apply_mat (bcs p) (effective_sum p))"
    using assms by (intro wf_bcs_apply_mat wf_effective_sum)
  fix i j assume ij: "i < n_dofs p" "j < n_dofs p"
  show "A_mat p ! i ! j = bcs_apply_mat (bcs p) (effective_sum p) ! i ! j"
    using nth_bcs_apply_mat [OF wf_effective_sum [OF assms] wf_problemD(4) [OF assms] ij]
    by (simp add: nth_A_mat [OF assms ij] nth_effective_sum [OF assms ij])
qed

lemma A_mat_mass_eliminated:
  assumes "wf_problem p"
  shows "A_mat p = bcs_apply_mat (bcs p)
     (mat_add (mat_add (bcs_apply_mat (bcs p) (mass_form p))
        (mat_scale (gamma p * dt p) (C_mat p))) (mat_scale (beta p * (dt p)\<^sup>2) (K_mat p)))"
    (is "_ = bcs_apply_mat _ ?S")
proof (rule mat_eqI [where n = "n_dofs p"])
  note w = wf_problemD [OF assms]
  have wM: "wf_mat (n_dofs p) (bcs_apply_mat (bcs p) (mass_form p))"
    using w(1) by (rule wf_bcs_apply_mat)
  have w1: "wf_mat (n_dofs p) (mat_add (bcs_apply_mat (bcs p) (mass_form p))
        (mat_scale (gamma p * dt p) (C_mat p)))"
    using assms by (intro wf_mat_add wf_mat_scale wM wf_C_mat)
  have wS: "wf_mat (n_dofs p) ?S"
    using assms by (intro wf_mat_add wf_mat_scale wM wf_C_mat wf_K_mat)
  show "wf_mat (n_dofs p) (A_mat p)" using assms by (rule wf_A_mat)
  show "wf_mat (n_dofs p) (bcs_apply_mat (bcs p) ?S)" using wS by (rule wf_bcs_apply_mat)
  fix i j assume ij: "i < n_dofs p" "j < n_dofs p"
  have S: "?S ! i ! j = bcs_apply_mat (bcs p) (mass_form p) ! i ! j +
      gamma p * dt p * C_mat p ! i ! j + beta p * (dt p)\<^sup>2 * K_mat p ! i ! j"
    using ij wM w1 wf_C_mat [OF assms] wf_K_mat [OF assms]
    by (simp add: nth_mat_add [where n = "n_dofs p"] nth_mat_scale [where n = "n_dofs p"]
        wf_mat_scale)
  show "A_mat p ! i ! j = bcs_apply_mat (bcs p) ?S ! i ! j"
    unfolding nth_bcs_apply_mat [OF wS w(4) ij] S nth_A_mat [OF assms ij]
    by (simp add: C_mat_def K_mat_def nth_bcs_apply_mat [OF w(1) w(4) ij]
        nth_bcs_apply_mat [OF w(2) w(4) ij] nth_bcs_apply_mat [OF w(3) w(4) ij])
qed

lemma nth_M_lumped:
  assumes "wf_problem p" "i < n_dofs p"
  shows "M_lumped p ! i =
     sum_list (mass_form p ! i) + 1/2 * dt p * sum_list (damping_form p ! i)"
proof -
  note w = wf_problemD [OF assms(1)]
  let ?m = "mat_add (mass_form p) (mat_scale (0.5 * dt p) (damping_form p))"
  have wm: "wf_mat (n_dofs p) ?m" by (intro wf_mat_add wf_mat_scale w)
  have row: "?m ! i = map2 (+) (mass_form p ! i) (map ((*) (0.5 * dt p)) (damping_form p ! i))"
    using w(1,2) assms(2) by (simp add: mat_add_def mat_scale_def wf_matD)
  have "M_lumped p ! i = inner (?m ! i) (replicate (n_dofs p) 1)"
    using wm assms(2) by (simp add: M_lumped_def Let_def nth_mult wf_matD)
  also have "\<dots> = sum_list (?m ! i)"
    using wm assms(2) by (intro inner_ones) (simp add: wf_matD)
  also have "\<dots> = sum_list (mass_form p ! i) + 1/2 * dt p * sum_list (damping_form p ! i)"
    using w(1,2) assms(2) unfolding row
    by (subst sum_list_map2_add) (simp_all add: wf_matD sum_list_scale)
  finally show ?thesis .
qed

lemma quadratic_mat_add:
  assumes "wf_mat n A" "wf_mat n B" "length x = n"
  shows "inner x (mult (mat_add A B) x) = inner x (mult A x) + inner x (mult B x)"
proof -
  have "inner x (mult (mat_add A B) x) = (\<Sum>i<n. \<Sum>j<n. x ! i * mat_add A B ! i ! j * x ! j)"
    using assms by (intro bilinear_sum wf_mat_add)
  also have "\<dots> = (\<Sum>i<n. \<Sum>j<n. x ! i * A ! i ! j * x ! j + x ! i * B ! i ! j * x ! j)"
    using assms(1,2) by (intro sum.cong refl) (simp add: nth_mat_add [where n = n] algebra_simps)
  also have "\<dots> = (\<Sum>i<n. \<Sum>j<n. x ! i * A ! i ! j * x ! j) +
      (\<Sum>i<n. \<Sum>j<n. x ! i * B ! i ! j * x ! j)"
    by (simp add: sum.distrib)
  finally show ?thesis using assms by (simp add: bilinear_sum)
qed

lemma quadratic_mat_scale:
  assumes "wf_mat n A" "length x = n"
  shows "inner x (mult (mat_scale c A) x) = c * inner x (mult A x)"
proof -
  have "inner x (mult (mat_scale c A) x) = (\<Sum>i<n. \<Sum>j<n. x ! i * mat_scale c A ! i ! j * x ! j)"
    using assms by (intro bilinear_sum wf_mat_scale)
  also have "\<dots> = (\<Sum>i<n. \<Sum>j<n. c * (x ! i * A ! i ! j * x ! j))"
    using assms(1) by (intro sum.cong refl) (simp add: nth_mat_scale [where n = n] algebra_simps)
  also have "\<dots> = c * (\<Sum>i<n. \<Sum>j<n. x ! i * A ! i ! j * x ! j)"
    by (simp add: sum_distrib_left)
  finally show ?thesis using assms by (simp add: bilinear_sum)
qed

lemma pos_def_effective_sum:
  assumes "wf_problem p" "pos_def (n_dofs p) (mass_form p)"
    and "pos_semidef (n_dofs p) (damping_form p)" "pos_semidef (n_dofs p) (stiffness_form p)"
    and "0 \<le> gamma p" "0 \<le> beta p" "0 \<le> t_end p"
  shows "pos_def (n_dofs p) (effective_sum p)"
  unfolding pos_def_def
proof (intro allI impI)
  fix x :: vec assume x: "length x = n_dofs p \<and> x \<noteq> replicate (n_dofs p) 0"
  note w = wf_problemD [OF assms(1)]
  have d: "0 \<le> dt p" using assms(7) by (simp add: dt_def)
  have w1: "wf_mat (n_dofs p) (mat_add (mass_form p) (mat_scale (gamma p * dt p) (damping_form p)))"
    by (intro wf_mat_add wf_mat_scale w)
  have "inner x (mult (effective_sum p) x) =
      inner x (mult (mass_form p) x) + gamma p * dt p * inner x (mult (damping_form p) x) +
      beta p * (dt p)\<^sup>2 * inner x (mult (stiffness_form p) x)"
    unfolding effective_sum_def using x w(1-3) w1
    by (simp add: quadratic_mat_add [where n = "n_dofs p"] quadratic_mat_scale [where n = "n_dofs p"]
        wf_mat_scale)
  moreover have "0 < inner x (mult (mass_form p) x)"
    using assms(2) x unfolding pos_def_def by blast
  moreover have "0 \<le> gamma p * dt p * inner x (mult (damping_form p) x)"
    using assms(3,5) d x unfolding pos_semidef_def by simp
  moreover have "0 \<le> beta p * (dt p)\<^sup>2 * inner x (mult (stiffness_form p) x)"
    using assms(4,6) x unfolding pos_semidef_def by simp
  ultimately show "0 < inner x (mult (effective_sum p) x)" by linarith
qed

lemma symmetric_effective_sum:
  assumes "wf_problem p" "symmetric (mass_form p)" "symmetric (damping_form p)"
    "symmetric (stiffness_form p)"
  shows "symmetric (effective_sum p)"
proof (rule symmetricI [where n = "n_dofs p"])
  show "length (effective_sum p) = n_dofs p"
    using wf_effective_sum [OF assms(1)] by (simp add: wf_matD)
next
  fix i j assume ij: "i < n_dofs p" "j < n_dofs p"
  note w = wf_problemD [OF assms(1)]
  show "effective_sum p ! i ! j = effective_sum p ! j ! i"
    using ij w(1-3) assms(2-4)
    by (simp add: nth_effective_sum [OF assms(1)] symmetricD wf_matD)
qed

subsection \<open>One iteration\<close>

lemma wf_init: "wf_state p (init p)"
  by (simp add: wf_state_def init_def)

lemma wf_stateD:
  assumes "wf_state p s"
  shows "length (u_vec s) = n_dofs p" "length (v_vec s) = n_dofs p"
    "length (a_vec s) = n_dofs p" "length (displ_tip s) = num_steps p + 1"
    "length (energies s) = num_steps p + 1"
  using assms by (simp_all add: wf_state_def)

lemma length_load:
  "wf_problem p \<Longrightarrow> wf_state p s \<Longrightarrow>
     length (f_glob (update_force p k (predictor p s))) = n_dofs p"
  by (simp add: update_force_def predictor_def Let_def wf_state_def wf_problemD)

lemma compute_acceleration_ok:
  assumes "wf_problem p" "acceleration_ok p" "length f = n_dofs p"
  shows "\<exists>a. compute_acceleration p f f = Some a \<and> length a = n_dofs p"
proof (cases "use_lumped_mass p")
  case True
  with assms show ?thesis
    by (simp add: compute_acceleration_def M_lumped_inv_def length_M_lumped)
next
  case False
  with assms(2) have "solver_exact p" by (simp add: acceleration_ok_def)
  with assms(3) False show ?thesis
    by (auto simp: compute_acceleration_def solver_exact_def)
qed

lemma step_succeeds:
  assumes "wf_problem p" "acceleration_ok p" "wf_state p s" "k < num_steps p"
  shows "\<exists>s'. step p k s = Inr s' \<and> wf_state p s'"
proof -
  let ?s2 = "update_force p k (predictor p s)"
  have "length (f_glob ?s2) = n_dofs p" using assms(1,3) by (rule length_load)
  from compute_acceleration_ok [OF assms(1,2) this]
  obtain a where a: "compute_acceleration p (f_glob ?s2) (f_glob ?s2) = Some a"
    "length a = n_dofs p" by blast
  let ?sc = "corrector p (?s2\<lparr>a_vec := a\<rparr>)"
  have "bookkeeping p k ?sc = Inr (write_rows p k ?sc)"
    using assms(3,4)
    by (simp add: wf_state_def bookkeeping_def corrector_def update_force_def predictor_def Let_def)
  moreover have "wf_state p (write_rows p k ?sc)"
    using assms(3) a(2)
    by (simp add: wf_state_def write_rows_def corrector_def update_force_def predictor_def Let_def)
  ultimately show ?thesis using a(1) by (simp add: step_def Let_def)
qed

lemma time_loop_succeeds:
  assumes "wf_problem p" "acceleration_ok p" "k \<le> num_steps p"
  shows "\<exists>s. time_loop p k (init p) = Inr s \<and> wf_state p s"
  using assms(3)
proof (induction k)
  case 0
  show ?case by (simp add: wf_init)
next
  case (Suc k)
  then obtain s where s: "time_loop p k (init p) = Inr s" "wf_state p s" by auto
  from Suc.prems have "k < num_steps p" by simp
  from step_succeeds [OF assms(1,2) s(2) this] s(1) show ?case by simp
qed

text \<open>The loop, iteration by iteration from \<open>n = 0\<close>: the first error stops it.\<close>

lemma time_loop_fold:
  "time_loop p k s =
     fold (\<lambda>n r. case r of Inl e \<Rightarrow> Inl e | Inr s' \<Rightarrow> step p n s') [0..<k] (Inr s)"
  by (induction k) simp_all

lemma predictor_fields:
  "u_vec (predictor p s) =
     axpy (axpy (u_vec s) (dt p) (v_vec s)) ((0.5 - beta p) * (dt p)\<^sup>2) (a_vec s)"
  "v_vec (predictor p s) = axpy (v_vec s) ((1 - gamma p) * dt p) (a_vec s)"
  "a_vec (predictor p s) = a_vec s"
  "E_damp (predictor p s) = E_damp s"
  "energies (predictor p s) = energies s"
  "displ_tip (predictor p s) = displ_tip s"
  by (simp_all add: predictor_def Let_def)

lemma update_force_fields:
  "u_vec (update_force p n s) = u_vec s"
  "v_vec (update_force p n s) = v_vec s"
  "a_vec (update_force p n s) = a_vec s"
  "E_damp (update_force p n s) = E_damp s"
  "energies (update_force p n s) = energies s"
  "displ_tip (update_force p n s) = displ_tip s"
  "f_glob (update_force p n s) =
     bcs_apply_vec (bcs p)
       (axpy (axpy (p_ext p (real (n + 1) * dt p)) (- 1) (mult (C_mat p) (v_vec s))) (- 1)
          (mult (K_mat p) (u_vec s)))"
  by (simp_all add: update_force_def Let_def)

lemma corrector_fields:
  "u_vec (corrector p s) = axpy (u_vec s) (beta p * (dt p)\<^sup>2) (a_vec s)"
  "v_vec (corrector p s) = axpy (v_vec s) (gamma p * dt p) (a_vec s)"
  "a_vec (corrector p s) = a_vec s"
  "f_glob (corrector p s) = f_glob s"
  "E_damp (corrector p s) = E_damp s"
  "energies (corrector p s) = energies s"
  "displ_tip (corrector p s) = displ_tip s"
  by (simp_all add: corrector_def Let_def)

lemma write_rows_fields:
  "u_vec (write_rows p n s) = u_vec s"
  "v_vec (write_rows p n s) = v_vec s"
  "a_vec (write_rows p n s) = a_vec s"
  "f_glob (write_rows p n s) = f_glob s"
  "E_damp (write_rows p n s) = E_damp s + dt p * inner (v_vec s) (mult (damping_form p) (v_vec s))"
  "energies (write_rows p n s) =
     (energies s)[n + 1 :=
        [0.5 * inner (u_vec s) (mult (stiffness_form p) (u_vec s)),
         0.5 * inner (v_vec s) (mult (mass_form p) (v_vec s)),
         E_damp s + dt p * inner (v_vec s) (mult (damping_form p) (v_vec s)),
         0.5 * inner (u_vec s) (mult (stiffness_form p) (u_vec s)) +
         0.5 * inner (v_vec s) (mult (mass_form p) (v_vec s)) +
         (E_damp s + dt p * inner (v_vec s) (mult (damping_form p) (v_vec s)))]]"
  by (simp_all add: write_rows_def Let_def)

lemma step_cases:
  assumes "wf_problem p" "acceleration_ok p" "wf_state p s" "n < num_steps p"
  obtains a where
    "compute_acceleration p (f_glob (update_force p n (predictor p s)))
        (f_glob (update_force p n (predictor p s))) = Some a"
    "length a = n_dofs p"
    "step p n s =
       Inr (write_rows p n (corrector p ((update_force p n (predictor p s))\<lparr>a_vec := a\<rparr>)))"
proof -
  let ?s2 = "update_force p n (predictor p s)"
  have "length (f_glob ?s2) = n_dofs p" using assms(1,3) by (rule length_load)
  from compute_acceleration_ok [OF assms(1,2) this]
  obtain a where a: "compute_acceleration p (f_glob ?s2) (f_glob ?s2) = Some a"
    "length a = n_dofs p" by blast
  have "bookkeeping p n (corrector p (?s2\<lparr>a_vec := a\<rparr>)) =
      Inr (write_rows p n (corrector p (?s2\<lparr>a_vec := a\<rparr>)))"
    using assms(3,4)
    by (simp add: wf_state_def bookkeeping_def corrector_def update_force_def predictor_def Let_def)
  with a(1) have "step p n s = Inr (write_rows p n (corrector p (?s2\<lparr>a_vec := a\<rparr>)))"
    by (simp add: step_def Let_def)
  with a show ?thesis using that by blast
qed

lemma implicit_solves:
  assumes "wf_problem p" "acceleration_ok p" "\<not> use_lumped_mass p" "length f = n_dofs p"
    and "compute_acceleration p f f = Some a"
  shows "mult (A_mat p) a = f" "length a = n_dofs p"
    "\<And>y. length y = n_dofs p \<Longrightarrow> mult (A_mat p) y = f \<Longrightarrow> y = a"
proof -
  from assms(2,3) have "solver_exact p" by (simp add: acceleration_ok_def)
  with assms(4) obtain x where x: "LUSolver p (A_mat p) f = Some x" "length x = n_dofs p"
    "mult (A_mat p) x = f" "\<forall>y. length y = n_dofs p \<and> mult (A_mat p) y = f \<longrightarrow> y = x"
    unfolding solver_exact_def by blast
  from assms(3,5) x(1) have ax: "a = x" by (simp add: compute_acceleration_def)
  show "mult (A_mat p) a = f" using x(3) by (simp only: ax)
  show "length a = n_dofs p" using x(2) by (simp only: ax)
  show "y = a" if "length y = n_dofs p" "mult (A_mat p) y = f" for y
    using x(4) that unfolding ax by blast
qed

lemma init_fields:
  "u_vec (init p) = replicate (n_dofs p) 0" "v_vec (init p) = replicate (n_dofs p) 0"
  "a_vec (init p) = replicate (n_dofs p) 0" "E_damp (init p) = 0"
  "energies (init p) = replicate (num_steps p + 1) [0, 0, 0, 0]"
  by (simp_all add: init_def zero_def numeral_eq_Suc)

lemma compute_acceleration_fixed:
  assumes "wf_problem p" "homogeneous (bcs p)" "acceleration_ok p" "length f = n_dofs p"
    and "i \<in> bc_dofs (bcs p)" "f ! i = 0"
    and "compute_acceleration p f f = Some a"
  shows "a ! i = 0"
proof (cases "use_lumped_mass p")
  case True
  have i: "i < n_dofs p" using wf_problemD(4) [OF assms(1)] assms(5) by (rule wf_bcsD)
  from True assms(7) have "a = bcs_apply_vec (bcs p) (map2 (*) (M_lumped_inv p) f)"
    by (simp add: compute_acceleration_def)
  with assms(1,2,4,5) i show ?thesis
    by (simp add: nth_bcs_apply_vec_fixed M_lumped_inv_def length_M_lumped)
next
  case False
  from implicit_solves(1,2) [OF assms(1,3) False assms(4,7)]
  have "mult (A_mat p) a = f" "length a = n_dofs p" .
  with A_mat_fixed_row [OF assms(1,5), of a] assms(6) show ?thesis by simp
qed

lemma load_fixed:
  assumes "wf_problem p" "homogeneous (bcs p)" "wf_state p s" "i \<in> bc_dofs (bcs p)"
  shows "f_glob (update_force p n (predictor p s)) ! i = 0"
proof -
  have i: "i < n_dofs p" using wf_problemD(4) [OF assms(1)] assms(4) by (rule wf_bcsD)
  show ?thesis
    using assms i
    by (simp add: update_force_fields predictor_fields nth_bcs_apply_vec_fixed wf_problemD wf_stateD)
qed

lemma step_fields:
  assumes "step p n s = Inr s'"
  obtains a where
    "compute_acceleration p (f_glob (update_force p n (predictor p s)))
        (f_glob (update_force p n (predictor p s))) = Some a"
    "s' = write_rows p n (corrector p ((update_force p n (predictor p s))\<lparr>a_vec := a\<rparr>))"
    "n + 1 < length (displ_tip s)" "n + 1 < length (energies s)"
  using assms
  by (auto simp: step_def Let_def bookkeeping_def corrector_fields update_force_fields
      predictor_fields not_le split: option.splits if_splits)

lemma step_result:
  assumes "step p n s = Inr s'"
  shows "f_glob s' = f_glob (update_force p n (predictor p s))"
    "compute_acceleration p (f_glob s') (f_glob s') = Some (a_vec s')"
    "u_vec s' = axpy (u_vec (predictor p s)) (beta p * (dt p)\<^sup>2) (a_vec s')"
    "v_vec s' = axpy (v_vec (predictor p s)) (gamma p * dt p) (a_vec s')"
proof -
  from assms obtain a where a:
    "compute_acceleration p (f_glob (update_force p n (predictor p s)))
        (f_glob (update_force p n (predictor p s))) = Some a"
    "s' = write_rows p n (corrector p ((update_force p n (predictor p s))\<lparr>a_vec := a\<rparr>))"
    by (rule step_fields) blast
  show "f_glob s' = f_glob (update_force p n (predictor p s))"
    by (simp add: a(2) write_rows_fields corrector_fields)
  then show "compute_acceleration p (f_glob s') (f_glob s') = Some (a_vec s')"
    using a(1) by (simp add: a(2) write_rows_fields corrector_fields)
  show "u_vec s' = axpy (u_vec (predictor p s)) (beta p * (dt p)\<^sup>2) (a_vec s')"
    by (simp add: a(2) write_rows_fields corrector_fields update_force_fields)
  show "v_vec s' = axpy (v_vec (predictor p s)) (gamma p * dt p) (a_vec s')"
    by (simp add: a(2) write_rows_fields corrector_fields update_force_fields)
qed

lemma step_values:
  assumes "wf_problem p" "acceleration_ok p" "wf_state p s" "n < num_steps p"
    and "f_glob (update_force p n (predictor p s)) = f" "compute_acceleration p f f = Some a"
  shows "\<exists>s'. step p n s = Inr s' \<and> wf_state p s' \<and> f_glob s' = f \<and> a_vec s' = a \<and>
     u_vec s' = axpy (u_vec (predictor p s)) (beta p * (dt p)\<^sup>2) a \<and>
     v_vec s' = axpy (v_vec (predictor p s)) (gamma p * dt p) a"
proof -
  from step_succeeds [OF assms(1-4)] obtain s' where s': "step p n s = Inr s'" "wf_state p s'"
    by blast
  note r = step_result [OF s'(1)]
  have f: "f_glob s' = f" using r(1) assms(5) by simp
  with r(2) assms(6) have a: "a_vec s' = a" by simp
  from s' f a r(3,4) show ?thesis by auto
qed

lemma compute_acceleration_lumped:
  assumes "wf_problem p" "homogeneous (bcs p)" "use_lumped_mass p" "length f = n_dofs p"
    and "\<forall>c\<in>bc_dofs (bcs p). f ! c = 0"
  shows "compute_acceleration p f f = Some (map2 (*) (M_lumped_inv p) f)"
proof -
  have "bcs_apply_vec (bcs p) (map2 (*) (M_lumped_inv p) f) = map2 (*) (M_lumped_inv p) f"
  proof (rule bcs_apply_vec_id [OF assms(2)], rule ballI)
    fix c assume c: "c \<in> bc_dofs (bcs p)"
    then have "c < n_dofs p" using wf_problemD(4) [OF assms(1)] by (simp add: wf_bcsD)
    with assms(4,5) c length_M_lumped [OF assms(1)]
    show "map2 (*) (M_lumped_inv p) f ! c = 0" by (simp add: M_lumped_inv_def)
  qed
  with assms(3) show ?thesis by (simp add: compute_acceleration_def)
qed

lemma nth_lumped_product:
  assumes "wf_problem p" "length f = n_dofs p" "i < n_dofs p"
  shows "map2 (*) (M_lumped_inv p) f ! i = f ! i / M_lumped p ! i"
  using assms length_M_lumped [OF assms(1)] by (simp add: M_lumped_inv_def)

lemma step_fixed:
  assumes "wf_problem p" "homogeneous (bcs p)" "acceleration_ok p" "wf_state p s"
    and "i \<in> bc_dofs (bcs p)" "step p n s = Inr s'"
  shows "a_vec s' ! i = 0"
    and "u_vec s ! i = 0 \<Longrightarrow> v_vec s ! i = 0 \<Longrightarrow> a_vec s ! i = 0 \<Longrightarrow>
           u_vec s' ! i = 0 \<and> v_vec s' ! i = 0"
proof -
  have i: "i < n_dofs p" using wf_problemD(4) [OF assms(1)] assms(5) by (rule wf_bcsD)
  note r = step_result [OF assms(6)]
  have lf: "length (f_glob s') = n_dofs p"
    unfolding r(1) using assms(1,4) by (rule length_load)
  have f0: "f_glob s' ! i = 0"
    unfolding r(1) using assms(1,2,4,5) by (rule load_fixed)
  show a0: "a_vec s' ! i = 0"
    using assms(1,2,3) lf assms(5) f0 r(2) by (rule compute_acceleration_fixed)
  have "n < num_steps p"
    using assms(6) wf_stateD(4) [OF assms(4)] by (auto elim: step_fields)
  from step_succeeds [OF assms(1,3,4) this] assms(6) have wf': "wf_state p s'"
    by simp
  show "u_vec s' ! i = 0 \<and> v_vec s' ! i = 0"
    if "u_vec s ! i = 0" "v_vec s ! i = 0" "a_vec s ! i = 0"
    using that a0 i wf_stateD [OF assms(4)] wf_stateD [OF wf']
    by (simp add: r(3,4) predictor_fields)
qed

lemma time_loop_fixed:
  assumes "wf_problem p" "homogeneous (bcs p)" "acceleration_ok p" "k \<le> num_steps p"
  shows "\<exists>s. time_loop p k (init p) = Inr s \<and> wf_state p s \<and>
     (\<forall>i\<in>bc_dofs (bcs p). u_vec s ! i = 0 \<and> v_vec s ! i = 0 \<and> a_vec s ! i = 0)"
  using assms(4)
proof (induction k)
  case 0
  have "i < n_dofs p" if "i \<in> bc_dofs (bcs p)" for i
    using wf_problemD(4) [OF assms(1)] that by (rule wf_bcsD)
  then show ?case by (simp add: wf_init init_fields)
next
  case (Suc k)
  then obtain s where s: "time_loop p k (init p) = Inr s" "wf_state p s"
    "\<forall>i\<in>bc_dofs (bcs p). u_vec s ! i = 0 \<and> v_vec s ! i = 0 \<and> a_vec s ! i = 0" by auto
  from Suc.prems have "k < num_steps p" by simp
  from step_succeeds [OF assms(1,3) s(2) this] obtain s' where
    s': "step p k s = Inr s'" "wf_state p s'" by blast
  have "u_vec s' ! i = 0 \<and> v_vec s' ! i = 0 \<and> a_vec s' ! i = 0" if "i \<in> bc_dofs (bcs p)" for i
    using step_fixed [OF assms(1,2,3) s(2) that s'(1)] s(3) that by blast
  with s(1) s' show ?case by simp
qed

lemma compute_acceleration_zeros:
  assumes "wf_problem p" "homogeneous (bcs p)" "acceleration_ok p"
    and "compute_acceleration p (replicate (n_dofs p) 0) (replicate (n_dofs p) 0) = Some a"
  shows "a = replicate (n_dofs p) 0"
proof (cases "use_lumped_mass p")
  case True
  with assms(4) have "a = bcs_apply_vec (bcs p)
      (map2 (*) (M_lumped_inv p) (replicate (n_dofs p) 0))"
    by (simp add: compute_acceleration_def)
  also have "map2 (*) (M_lumped_inv p) (replicate (n_dofs p) 0) = replicate (n_dofs p) 0"
    using assms(1) by (intro map2_times_zeros) (simp add: M_lumped_inv_def length_M_lumped)
  finally show ?thesis using assms(2) by (simp add: bcs_apply_vec_zeros)
next
  case False
  have "mult (A_mat p) (replicate (n_dofs p) 0) = replicate (n_dofs p) 0"
    using assms(1) by (simp add: mult_zeros)
  with implicit_solves(3) [OF assms(1,3) False _ assms(4), of "replicate (n_dofs p) 0"]
  show ?thesis by simp
qed

lemma step_zero:
  assumes "wf_problem p" "homogeneous (bcs p)" "acceleration_ok p"
    and "p_ext p (real (n + 1) * dt p) = replicate (n_dofs p) 0"
    and "u_vec s = replicate (n_dofs p) 0" "v_vec s = replicate (n_dofs p) 0"
      "a_vec s = replicate (n_dofs p) 0"
    and "step p n s = Inr s'"
  shows "u_vec s' = replicate (n_dofs p) 0 \<and> v_vec s' = replicate (n_dofs p) 0 \<and>
         a_vec s' = replicate (n_dofs p) 0"
proof -
  note r = step_result [OF assms(8)]
  have pu: "u_vec (predictor p s) = replicate (n_dofs p) 0"
    and pv: "v_vec (predictor p s) = replicate (n_dofs p) 0"
    by (simp_all add: predictor_fields assms(5-7))
  have "f_glob s' = bcs_apply_vec (bcs p)
       (axpy (axpy (replicate (n_dofs p) 0) (- 1) (mult (C_mat p) (replicate (n_dofs p) 0)))
          (- 1) (mult (K_mat p) (replicate (n_dofs p) 0)))"
    by (simp only: r(1) update_force_fields pu pv assms(4))
  then have "f_glob s' = replicate (n_dofs p) 0"
    using assms(1,2) by (simp add: mult_zeros bcs_apply_vec_zeros)
  with r(2) have "a_vec s' = replicate (n_dofs p) 0"
    using compute_acceleration_zeros [OF assms(1-3)] by simp
  then show ?thesis by (simp add: r(3,4) pu pv)
qed



lemma dt_crit_value:
  assumes "E_mod p > 0" "rho p > 0"
  shows "dt_crit p = Inr (l_e p / sqrt (E_mod p / rho p))"
  using assms by (simp add: dt_crit_def Let_def not_le)

lemma simulate_run:
  assumes "validate_lumped p = Inr ()" "0 < num_steps p" "dt_crit p = Inr h"
    and "acceleration_ok p" "time_loop p (num_steps p) (init p) = Inr s"
  shows "simulate p = Inr (dt p > h, s)"
  using assms by (auto simp: simulate_def stability_warning_def acceleration_ok_def)

subsection \<open>The direct solver and the implicit run\<close>

text \<open>One stage of the elimination turns the system into the pivot equation and the
  system of the Schur complement; hence the substitutions solve the system, the solution
  is the only one, and a positive definite matrix has no zero pivot.\<close>

lemma inner_Cons [simp]: "inner (a # r) (x # xs) = a * x + inner r xs"
  by (simp add: inner_def)

lemma inner_sub_scaled:
  assumes "length r = n" "length t = n" "length x = n"
  shows "inner (map2 (\<lambda>rj tj. tj - k * rj) r t) x = inner t x - k * inner r x"
proof -
  have "inner (map2 (\<lambda>rj tj. tj - k * rj) r t) x =
      (\<Sum>i<n. map2 (\<lambda>rj tj. tj - k * rj) r t ! i * x ! i)"
    using assms by (intro inner_sum) simp_all
  also have "\<dots> = (\<Sum>i<n. t ! i * x ! i - k * (r ! i * x ! i))"
    using assms by (intro sum.cong) (simp_all add: algebra_simps)
  also have "\<dots> = (\<Sum>i<n. t ! i * x ! i) - k * (\<Sum>i<n. r ! i * x ! i)"
    by (simp add: sum_subtractf sum_distrib_left)
  finally show ?thesis using assms by (simp add: inner_sum)
qed

lemma wf_mat_Cons:
  "wf_mat (Suc n) (row # rows) \<longleftrightarrow>
     length row = Suc n \<and> length rows = n \<and> (\<forall>rw\<in>set rows. length rw = Suc n)"
  by (auto simp: wf_mat_def list_all_iff)

lemma wf_schur:
  assumes "length r = n" "length rows = n" "\<forall>rw\<in>set rows. length rw = Suc n"
  shows "wf_mat n (schur a r rows)"
  using assms by (auto simp: wf_mat_def schur_def list_all_iff)

lemma schur_row:
  assumes "length r = n" "length rows = n" "\<forall>rw\<in>set rows. length rw = Suc n"
    and "length x = n" "i < n" "a \<noteq> 0"
  shows "mult (schur a r rows) x ! i =
     inner (rows ! i) (x0 # x) - hd (rows ! i) / a * (a * x0 + inner r x)"
proof -
  from assms(2,3,5) have l: "length (rows ! i) = Suc n" by simp
  then obtain c t where ct: "rows ! i = c # t" "length t = n" by (cases "rows ! i") auto
  have "mult (schur a r rows) x ! i = inner (map2 (\<lambda>rj tj. tj - c / a * rj) r t) x"
    using assms(2,5) by (simp add: schur_def mult_def ct)
  also have "\<dots> = inner t x - c / a * inner r x"
    using assms(1) ct(2) assms(4) by (rule inner_sub_scaled)
  also have "\<dots> = inner (c # t) (x0 # x) - c / a * (a * x0 + inner r x)"
    using assms(6) by (simp add: algebra_simps)
  finally show ?thesis by (simp add: ct)
qed

lemma list_eq_nth:
  "length xs = n \<Longrightarrow> length ys = n \<Longrightarrow> xs = ys \<longleftrightarrow> (\<forall>i<n. xs ! i = ys ! i)"
  by (simp add: list_eq_iff_nth_eq)

lemma stage_equiv:
  assumes "a \<noteq> 0" "length r = n" "length rows = n" "\<forall>rw\<in>set rows. length rw = Suc n"
    and "length x = n" "length b = n"
  shows "mult ((a # r) # rows) (x0 # x) = b0 # b \<longleftrightarrow>
     a * x0 + inner r x = b0 \<and>
     mult (schur a r rows) x = map2 (\<lambda>li bi. bi - li * b0) (multipliers a rows) b"
proof -
  have e: "mult ((a # r) # rows) (x0 # x) =
      (a * x0 + inner r x) # map (\<lambda>rw. inner rw (x0 # x)) rows"
    by (simp add: mult_def)
  have "map (\<lambda>rw. inner rw (x0 # x)) rows = b \<longleftrightarrow>
      (\<forall>i<n. map (\<lambda>rw. inner rw (x0 # x)) rows ! i = b ! i)"
    using assms(3,6) by (intro list_eq_nth) simp_all
  then have "map (\<lambda>rw. inner rw (x0 # x)) rows = b \<longleftrightarrow>
      (\<forall>i<n. inner (rows ! i) (x0 # x) = b ! i)"
    using assms(3) by simp
  then have L: "mult ((a # r) # rows) (x0 # x) = b0 # b \<longleftrightarrow>
      a * x0 + inner r x = b0 \<and> (\<forall>i<n. inner (rows ! i) (x0 # x) = b ! i)"
    unfolding e by simp
  have lS: "length (mult (schur a r rows) x) = n" using assms(3) by (simp add: schur_def)
  have lR: "length (map2 (\<lambda>li bi. bi - li * b0) (multipliers a rows) b) = n"
    using assms(3,6) by (simp add: multipliers_def)
  have nR: "map2 (\<lambda>li bi. bi - li * b0) (multipliers a rows) b ! i =
      b ! i - hd (rows ! i) / a * b0" if "i < n" for i
    using that assms(3,6) by (simp add: multipliers_def)
  have R: "mult (schur a r rows) x = map2 (\<lambda>li bi. bi - li * b0) (multipliers a rows) b \<longleftrightarrow>
      (\<forall>i<n. mult (schur a r rows) x ! i = b ! i - hd (rows ! i) / a * b0)"
    unfolding list_eq_nth [OF lS lR] by (simp add: nR)
  have "(\<forall>i<n. inner (rows ! i) (x0 # x) = b ! i) \<longleftrightarrow>
      (\<forall>i<n. mult (schur a r rows) x ! i = b ! i - hd (rows ! i) / a * b0)"
    if "a * x0 + inner r x = b0"
    using schur_row [OF assms(2-5) _ assms(1), of _ x0] that by auto
  with L R show ?thesis by blast
qed

lemma lu_solve_Cons:
  "lu_solve ((a, r, l) # fs) (b0 # b) =
     (b0 - inner r (lu_solve fs (map2 (\<lambda>li bi. bi - li * b0) l b))) / a
       # lu_solve fs (map2 (\<lambda>li bi. bi - li * b0) l b)"
  by (simp add: lu_solve_def Let_def)

lemma lu_solve_correct:
  assumes "wf_mat n A" "lu_factorize A = Some fs" "length b = n"
  shows "length (lu_solve fs b) = n \<and> mult A (lu_solve fs b) = b \<and>
     (\<forall>y. length y = n \<and> mult A y = b \<longrightarrow> y = lu_solve fs b)"
  using assms
proof (induction n arbitrary: A fs b)
  case 0
  then show ?case by (simp add: wf_mat_def lu_solve_def mult_def)
next
  case (Suc n)
  from Suc.prems(1) obtain row rows where A: "A = row # rows"
    by (cases A) (auto simp: wf_mat_def)
  with Suc.prems(1) have w: "length row = Suc n" "length rows = n"
    "\<forall>rw\<in>set rows. length rw = Suc n"
    by (simp_all add: wf_mat_Cons)
  from w(1) obtain a r where row: "row = a # r" "length r = n" by (cases row) auto
  from Suc.prems(3) obtain b0 b' where b: "b = b0 # b'" "length b' = n" by (cases b) auto
  from Suc.prems(2) have a: "a \<noteq> 0" by (auto simp: A row split: if_splits)
  with Suc.prems(2) obtain fs' where fs: "fs = (a, r, multipliers a rows) # fs'"
    "lu_factorize (schur a r rows) = Some fs'"
    by (auto simp: A row)
  let ?y = "map2 (\<lambda>li bi. bi - li * b0) (multipliers a rows) b'"
  let ?t = "lu_solve fs' ?y"
  let ?h = "(b0 - inner r ?t) / a"
  have ly: "length ?y = n" using w(2) b(2) by (simp add: multipliers_def)
  have wS: "wf_mat n (schur a r rows)" using row(2) w(2,3) by (rule wf_schur)
  note IH = Suc.IH [OF wS fs(2) ly]
  have sol: "lu_solve fs b = ?h # ?t" by (simp add: fs(1) b(1) lu_solve_Cons)
  have lx: "length ?t = n" using IH by blast
  have 1: "length (lu_solve fs b) = Suc n" using lx by (simp add: sol)
  have "a * ?h + inner r ?t = b0" using a by simp
  moreover have "mult (schur a r rows) ?t = ?y" using IH by blast
  ultimately have m: "mult ((a # r) # rows) (?h # ?t) = b0 # b'"
    using stage_equiv [OF a row(2) w(2,3) lx b(2)] by blast
  have 2: "mult A (lu_solve fs b) = b"
    unfolding sol unfolding A row(1) b(1) by (rule m)
  have 3: "y = lu_solve fs b" if y: "length y = Suc n \<and> mult A y = b" for y
  proof -
    from y obtain y0 y' where yy: "y = y0 # y'" "length y' = n" by (cases y) auto
    from y have "mult ((a # r) # rows) (y0 # y') = b0 # b'"
      by (simp add: A row(1) b(1) yy(1))
    with stage_equiv [OF a row(2) w(2,3) yy(2) b(2)]
    have e: "a * y0 + inner r y' = b0" "mult (schur a r rows) y' = ?y" by blast+
    from IH yy(2) e(2) have "y' = ?t" by blast
    moreover from e(1) a have "y0 = (b0 - inner r y') / a" by (simp add: field_simps)
    ultimately show ?thesis by (simp add: sol yy(1))
  qed
  from 1 2 3 show ?case by blast
qed

lemma pos_def_stage:
  assumes "wf_mat (Suc n) ((a # r) # rows)" "pos_def (Suc n) ((a # r) # rows)"
  shows "0 < a" "pos_def n (schur a r rows)"
proof -
  from assms(1) have w: "length r = n" "length rows = n" "\<forall>rw\<in>set rows. length rw = Suc n"
    by (simp_all add: wf_mat_Cons)
  let ?A = "(a # r) # rows"
  have z: "inner (replicate n 0) y = 0" for y :: vec
    by (subst inner_commute) (rule inner_zeros_right)
  have "length (1 # replicate n (0::real)) = Suc n \<and> 1 # replicate n (0::real) \<noteq> replicate (Suc n) 0"
    by simp
  with assms(2) have "0 < inner (1 # replicate n 0) (mult ?A (1 # replicate n 0))"
    unfolding pos_def_def by blast
  then show a: "0 < a" by (simp add: mult_def inner_zeros_right z)
  show "pos_def n (schur a r rows)"
    unfolding pos_def_def
  proof (intro allI impI)
    fix x :: vec assume x: "length x = n \<and> x \<noteq> replicate n 0"
    define x0 where "x0 = - inner r x / a"
    have e: "a * x0 + inner r x = 0" using a by (simp add: x0_def)
    have "mult (schur a r rows) x = map (\<lambda>rw. inner rw (x0 # x)) rows"
    proof (rule nth_equalityI)
      show "length (mult (schur a r rows) x) = length (map (\<lambda>rw. inner rw (x0 # x)) rows)"
        by (simp add: schur_def)
    next
      fix i assume "i < length (mult (schur a r rows) x)"
      then have i: "i < n" using w(2) by (simp add: schur_def)
      from a have "a \<noteq> 0" by simp
      from schur_row [OF w _ i this, of x x0] x e i w(2)
      show "mult (schur a r rows) x ! i = map (\<lambda>rw. inner rw (x0 # x)) rows ! i" by simp
    qed
    then have "inner (x0 # x) (mult ?A (x0 # x)) = inner x (mult (schur a r rows) x)"
      using e by (simp add: mult_def)
    moreover have "length (x0 # x) = Suc n \<and> x0 # x \<noteq> replicate (Suc n) 0" using x by simp
    with assms(2) have "0 < inner (x0 # x) (mult ?A (x0 # x))" unfolding pos_def_def by blast
    ultimately show "0 < inner x (mult (schur a r rows) x)" by simp
  qed
qed

lemma lu_factorize_pos_def:
  assumes "wf_mat n A" "pos_def n A"
  shows "\<exists>fs. lu_factorize A = Some fs"
  using assms
proof (induction n arbitrary: A)
  case 0
  then show ?case by (simp add: wf_mat_def)
next
  case (Suc n)
  from Suc.prems(1) obtain row rows where A: "A = row # rows"
    by (cases A) (auto simp: wf_mat_def)
  with Suc.prems(1) have w: "length row = Suc n" "length rows = n"
    "\<forall>rw\<in>set rows. length rw = Suc n"
    by (simp_all add: wf_mat_Cons)
  from w(1) obtain a r where row: "row = a # r" "length r = n" by (cases row) auto
  note s = pos_def_stage [OF Suc.prems [unfolded A row(1)]]
  have "wf_mat n (schur a r rows)" using row(2) w(2,3) by (rule wf_schur)
  from Suc.IH [OF this s(2)] obtain fs where "lu_factorize (schur a r rows) = Some fs" by blast
  with s(1) show ?case by (simp add: A row(1))
qed

text \<open>The implicit run: the set-up, one iteration, and the loop.\<close>

lemma implicit_setup_ok:
  assumes "lu_factorize (A_mat p) = Some fs"
  shows "implicit_setup p =
     Inr \<lparr>A_glob = A_mat p, solver = \<lparr>factors = fs\<rparr>, vars = init p,
          calls = [Factorize (A_mat p)]\<rparr>"
  using assms by (simp add: implicit_setup_def lu_solver_new_def Let_def)

lemma implicit_setup_cases:
  assumes "implicit_setup p = Inr g0"
  shows "lu_factorize (A_mat p) = Some (factors (solver g0))" "A_glob g0 = A_mat p"
    "calls g0 = [Factorize (A_mat p)]" "vars g0 = init p"
  using assms
  by (auto simp: implicit_setup_def lu_solver_new_def Let_def split: option.splits)

lemma implicit_step_ok:
  assumes "wf_problem p" "lu_factorize (A_mat p) = Some fs" "factors (solver g) = fs"
    and "wf_state p (vars g)" "n < num_steps p"
  shows "\<exists>g'. implicit_step p n g = Inr g' \<and> A_glob g' = A_glob g \<and> solver g' = solver g \<and>
     wf_state p (vars g') \<and>
     f_glob (vars g') = f_glob (update_force p n (predictor p (vars g))) \<and>
     calls g' = calls g @ [Substitute (f_glob (vars g'))] \<and>
     a_vec (vars g') = lu_solve fs (f_glob (vars g')) \<and>
     mult (A_mat p) (a_vec (vars g')) = f_glob (vars g') \<and>
     (\<forall>y. length y = n_dofs p \<and> mult (A_mat p) y = f_glob (vars g') \<longrightarrow> y = a_vec (vars g')) \<and>
     (\<not> use_lumped_mass p \<and> solver_exact p \<longrightarrow> step p n (vars g) = Inr (vars g'))"
proof -
  let ?s2 = "update_force p n (predictor p (vars g))"
  let ?f = "f_glob ?s2"
  let ?a = "lu_solve fs ?f"
  let ?sc = "corrector p (?s2\<lparr>a_vec := ?a\<rparr>)"
  let ?s' = "write_rows p n ?sc"
  let ?g' = "g\<lparr>solver := solver g, vars := ?s', calls := calls g @ [Substitute ?f]\<rparr>"
  have lf: "length ?f = n_dofs p" using assms(1,4) by (rule length_load)
  note c = lu_solve_correct [OF wf_A_mat [OF assms(1)] assms(2) lf]
  have la: "length ?a = n_dofs p" using c by blast
  have bk: "bookkeeping p n ?sc = Inr ?s'"
    using assms(4,5)
    by (simp add: wf_state_def bookkeeping_def corrector_def update_force_def predictor_def Let_def)
  have st: "implicit_step p n g = Inr ?g'"
    by (simp add: implicit_step_def lu_solver_solve_def Let_def assms(3) bk)
  have wf': "wf_state p ?s'"
    using assms(4) la
    by (simp add: wf_state_def write_rows_def corrector_def update_force_def predictor_def Let_def)
  have f': "f_glob ?s' = ?f" by (simp add: write_rows_fields corrector_fields)
  have a': "a_vec ?s' = ?a" by (simp add: write_rows_fields corrector_fields)
  have base: "step p n (vars g) = Inr ?s'" if h: "\<not> use_lumped_mass p \<and> solver_exact p"
  proof -
    from h lf obtain x where x: "LUSolver p (A_mat p) ?f = Some x" "length x = n_dofs p"
      "mult (A_mat p) x = ?f"
      unfolding solver_exact_def by blast
    with c have "x = ?a" by blast
    with x(1) h have "compute_acceleration p ?f ?f = Some ?a"
      by (simp add: compute_acceleration_def)
    then show ?thesis by (simp add: step_def Let_def bk)
  qed
  have 1: "A_glob ?g' = A_glob g" "solver ?g' = solver g" by simp_all
  have 2: "vars ?g' = ?s'" "calls ?g' = calls g @ [Substitute ?f]" by simp_all
  show ?thesis
    apply (rule exI [of _ ?g'])
    unfolding 2 f' a'
    using st 1 wf' c base by blast
qed

lemma implicit_loop_ok:
  assumes "wf_problem p" "lu_factorize (A_mat p) = Some fs" "implicit_setup p = Inr g0"
    and "k \<le> num_steps p"
  shows "\<exists>g fl. implicit_loop p k g0 = Inr g \<and> A_glob g = A_mat p \<and> solver g = solver g0 \<and>
     factors (solver g) = fs \<and> wf_state p (vars g) \<and>
     length fl = k \<and> calls g = Factorize (A_mat p) # map Substitute fl \<and>
     (\<not> use_lumped_mass p \<and> solver_exact p \<longrightarrow> time_loop p k (init p) = Inr (vars g))"
  using assms(4)
proof (induction k)
  case 0
  from implicit_setup_ok [OF assms(2)] assms(3)
  have g0: "g0 = \<lparr>A_glob = A_mat p, solver = \<lparr>factors = fs\<rparr>, vars = init p,
          calls = [Factorize (A_mat p)]\<rparr>" by simp
  show ?case
    by (rule exI [of _ g0], rule exI [of _ "[]"]) (simp add: g0 wf_init)
next
  case (Suc k)
  from Suc.prems have k: "k < num_steps p" and "k \<le> num_steps p" by simp_all
  from Suc.IH [OF this(2)] obtain g fl where g: "implicit_loop p k g0 = Inr g"
    "A_glob g = A_mat p" "solver g = solver g0" "factors (solver g) = fs"
    "wf_state p (vars g)" "length fl = k"
    "calls g = Factorize (A_mat p) # map Substitute fl"
    "\<not> use_lumped_mass p \<and> solver_exact p \<longrightarrow> time_loop p k (init p) = Inr (vars g)"
    by blast
  from implicit_step_ok [OF assms(1,2) g(4,5) k] obtain g' where
    g': "implicit_step p k g = Inr g'" "A_glob g' = A_glob g" "solver g' = solver g"
      "wf_state p (vars g')" "calls g' = calls g @ [Substitute (f_glob (vars g'))]"
      "\<not> use_lumped_mass p \<and> solver_exact p \<longrightarrow> step p k (vars g) = Inr (vars g')"
    by blast
  have 1: "implicit_loop p (Suc k) g0 = Inr g'" using g(1) g'(1) by simp
  have 2: "calls g' = Factorize (A_mat p) # map Substitute (fl @ [f_glob (vars g')])"
    by (simp add: g'(5) g(7))
  have 3: "length (fl @ [f_glob (vars g')]) = Suc k" using g(6) by simp
  have 4: "\<not> use_lumped_mass p \<and> solver_exact p \<longrightarrow> time_loop p (Suc k) (init p) = Inr (vars g')"
    using g(8) g'(6) by simp
  have 5: "A_glob g' = A_mat p" "solver g' = solver g0" "factors (solver g') = fs"
    using g'(2,3) g(2,3,4) by simp_all
  show ?case
    apply (rule exI [of _ g'])
    apply (rule exI [of _ "fl @ [f_glob (vars g')]"])
    using 1 5 g'(4) 3 2 4 by - (intro conjI, assumption+)
qed

subsection \<open>The small instances satisfy the assumptions\<close>

lemma p0_n: "n_dofs p0 = 2"
  by (simp add: p0_def n_dofs_def)

lemma p0_dt: "dt p0 = 1/2"
  by (simp add: p0_def dt_def)

lemma p0_wf: "wf_problem p0"
  by (simp add: wf_problem_def p0_n) (simp add: p0_def wf_mat_def wf_bcs_def)

lemma p0_hom: "homogeneous (bcs p0)"
  by (simp add: p0_def homogeneous_def)

lemma p0_dofs: "bc_dofs (bcs p0) = {0}"
  by (simp add: p0_def bc_dofs_def)

lemma p0_C: "C_mat p0 = [[1, 0], [0, 1]]"
  by (simp add: C_mat_def p0_def bcs_apply_mat_def bc_apply_mat_def eliminate_def)

lemma p0_K: "K_mat p0 = [[1, 0], [0, 1]]"
  by (simp add: K_mat_def p0_def bcs_apply_mat_def bc_apply_mat_def eliminate_def)

lemma p0_A: "A_mat p0 = [[1, 0], [0, 37/16]]"
  unfolding A_mat_def p0_C p0_K p0_dt Let_def
  by (simp add: p0_def bcs_apply_mat_def bc_apply_mat_def eliminate_def mat_add_def mat_scale_def
      power2_eq_square)

lemma length2: "length b = 2 \<longleftrightarrow> (\<exists>x y. b = [x, y])"
  by (cases b; cases "tl b"; auto)

lemma p0_solver: "solver_exact p0"
  unfolding solver_exact_def p0_A p0_n
proof (intro allI impI)
  fix b :: vec assume "length b = 2"
  then obtain b0 b1 where b: "b = [b0, b1]" by (auto simp: length2)
  show "\<exists>x. LUSolver p0 [[1, 0], [0, 37 / 16]] b = Some x \<and> length x = 2 \<and>
          mult [[1, 0], [0, 37 / 16]] x = b \<and>
          (\<forall>y. length y = 2 \<and> mult [[1, 0], [0, 37 / 16]] y = b \<longrightarrow> y = x)"
    by (rule exI [of _ "[b0, 16 * b1 / 37]"])
       (auto simp: b length2 p0_def cramer2_def mult_def inner_def)
qed

lemma p0_ok: "acceleration_ok p0"
  using p0_solver by (simp add: acceleration_ok_def p0_def)

lemma p0_fields:
  "mass_form p0 = [[2, 1], [1, 2]]" "damping_form p0 = [[1, 0], [0, 1]]"
  "stiffness_form p0 = [[1, - 1], [- 1, 1]]" "beta p0 = 1/4" "gamma p0 = 1/2"
  "num_steps p0 = 2" "use_lumped_mass p0 = False" "bcs p0 = [[(0, 0)]]"
  by (simp_all add: p0_def)

lemma p0_forms:
  "symmetric (mass_form p0)" "symmetric (damping_form p0)" "symmetric (stiffness_form p0)"
  "pos_def 2 (mass_form p0)" "pos_semidef 2 (damping_form p0)"
  "pos_semidef 2 (stiffness_form p0)"
proof -
  show "symmetric (mass_form p0)" "symmetric (damping_form p0)" "symmetric (stiffness_form p0)"
    by (simp_all add: p0_fields symmetric_def upt_rec)
  show "pos_def 2 (mass_form p0)"
    unfolding pos_def_def
  proof (intro allI impI)
    fix x :: vec assume x: "length x = 2 \<and> x \<noteq> replicate 2 0"
    then obtain a b where ab: "x = [a, b]" by (auto simp: length2)
    with x have nz: "a \<noteq> 0 \<or> b \<noteq> 0" by (simp add: numeral_2_eq_2)
    have "inner x (mult (mass_form p0) x) = a\<^sup>2 + b\<^sup>2 + (a + b)\<^sup>2"
      by (simp add: ab p0_fields mult_def inner_def power2_eq_square algebra_simps)
    moreover have "0 < a\<^sup>2 + b\<^sup>2" using nz by (simp add: sum_power2_gt_zero_iff)
    moreover have "0 \<le> (a + b)\<^sup>2" by simp
    ultimately show "0 < inner x (mult (mass_form p0) x)" by linarith
  qed
  show "pos_semidef 2 (damping_form p0)"
    unfolding pos_semidef_def
  proof (intro allI impI)
    fix x :: vec assume "length x = 2"
    then obtain a b where ab: "x = [a, b]" by (auto simp: length2)
    show "0 \<le> inner x (mult (damping_form p0) x)"
      by (simp add: ab p0_fields mult_def inner_def)
  qed
  show "pos_semidef 2 (stiffness_form p0)"
    unfolding pos_semidef_def
  proof (intro allI impI)
    fix x :: vec assume "length x = 2"
    then obtain a b where ab: "x = [a, b]" by (auto simp: length2)
    have "inner x (mult (stiffness_form p0) x) = (a - b)\<^sup>2"
      by (simp add: ab p0_fields mult_def inner_def power2_eq_square algebra_simps)
    then show "0 \<le> inner x (mult (stiffness_form p0) x)" by simp
  qed
qed

lemma pos_def_pos_semidef: "pos_def n A \<Longrightarrow> pos_semidef n A"
  unfolding pos_def_def pos_semidef_def
proof (intro allI impI)
  fix x :: vec
  assume a: "\<forall>x. length x = n \<and> x \<noteq> replicate n 0 \<longrightarrow> 0 < inner x (mult A x)"
    and x: "length x = n"
  show "0 \<le> inner x (mult A x)"
  proof (cases "x = replicate n 0")
    case True
    have "inner (replicate n 0) (mult A (replicate n 0)) = 0"
      by (subst inner_commute) (rule inner_zeros_right)
    with True show ?thesis by simp
  next
    case False
    with a x have "0 < inner x (mult A x)" by blast
    then show ?thesis by simp
  qed
qed

lemma p0_unloaded_facts:
  "wf_problem p0_unloaded" "homogeneous (bcs p0_unloaded)" "acceleration_ok p0_unloaded"
  "n_dofs p0_unloaded = 2" "num_steps p0_unloaded = 2"
proof -
  show "wf_problem p0_unloaded"
    using p0_wf p0_n by (simp add: wf_problem_def n_dofs_def p0_unloaded_def)
  show "homogeneous (bcs p0_unloaded)"
    using p0_hom by (simp add: p0_unloaded_def)
  have "A_mat p0_unloaded = A_mat p0"
    by (simp add: A_mat_def C_mat_def K_mat_def dt_def p0_unloaded_def)
  then show "acceleration_ok p0_unloaded"
    using p0_solver
    by (simp add: acceleration_ok_def solver_exact_def n_dofs_def) (simp add: p0_unloaded_def p0_def)
  show "n_dofs p0_unloaded = 2" "num_steps p0_unloaded = 2"
    by (simp_all add: p0_unloaded_def p0_def n_dofs_def)
qed

lemma p0_lumped_dt: "dt p0_lumped = 101/200"
  by (simp add: p0_lumped_def p0_def dt_def)

lemma p0_lumped_half_dt: "dt p0_lumped_half = 1/4"
  by (simp add: p0_lumped_half_def p0_lumped_def p0_def dt_def)

lemma p0_lumped_M_lumped: "M_lumped p0_lumped = [1301/400, 1301/400]"
  unfolding M_lumped_def p0_lumped_dt Let_def
  by (simp add: p0_lumped_def p0_def n_dofs_def mult_def inner_def mat_add_def mat_scale_def
      numeral_2_eq_2)

lemma p0_lumped_half_M_lumped: "M_lumped p0_lumped_half = [25/8, 25/8]"
  unfolding M_lumped_def p0_lumped_half_dt Let_def
  by (simp add: p0_lumped_half_def p0_lumped_def p0_def n_dofs_def mult_def inner_def mat_add_def mat_scale_def
      numeral_2_eq_2)

lemma p0_lumped_facts:
  "wf_problem p0_lumped" "homogeneous (bcs p0_lumped)" "acceleration_ok p0_lumped" "n_dofs p0_lumped = 2"
  "use_lumped_mass p0_lumped" "bc_dofs (bcs p0_lumped) = {0}" "validate_lumped p0_lumped = Inr ()"
  "beta_exp p0_lumped = 0" "gamma_exp p0_lumped = 1/2"
proof -
  show "wf_problem p0_lumped"
    using p0_wf by (simp add: wf_problem_def n_dofs_def p0_lumped_def)
  show "homogeneous (bcs p0_lumped)" using p0_hom by (simp add: p0_lumped_def)
  show "use_lumped_mass p0_lumped" by (simp add: p0_lumped_def)
  then show "acceleration_ok p0_lumped" by (simp add: acceleration_ok_def p0_lumped_M_lumped)
  show "n_dofs p0_lumped = 2" by (simp add: p0_lumped_def p0_def n_dofs_def)
  show "bc_dofs (bcs p0_lumped) = {0}" using p0_dofs by (simp add: p0_lumped_def)
  show "validate_lumped p0_lumped = Inr ()"
    by (simp add: validate_lumped_def atol_def p0_lumped_def p0_def)
  show "beta_exp p0_lumped = 0" "gamma_exp p0_lumped = 1/2" by (simp_all add: p0_lumped_def p0_def)
qed

lemma p0_lumped_half_facts:
  "wf_problem p0_lumped_half" "acceleration_ok p0_lumped_half" "validate_lumped p0_lumped_half = Inr ()"
proof -
  show "wf_problem p0_lumped_half"
    using p0_lumped_facts(1) by (simp add: wf_problem_def n_dofs_def p0_lumped_half_def)
  have "use_lumped_mass p0_lumped_half" by (simp add: p0_lumped_half_def p0_lumped_def)
  then show "acceleration_ok p0_lumped_half" by (simp add: acceleration_ok_def p0_lumped_half_M_lumped)
  show "validate_lumped p0_lumped_half = Inr ()"
    by (simp add: validate_lumped_def atol_def p0_lumped_half_def p0_lumped_def p0_def)
qed

lemma p1_fields:
  "mass_form p1 = [[2, 1], [1, 2]]" "damping_form p1 = [[1, 0], [0, 1]]"
  "stiffness_form p1 = [[1, - 1], [- 1, 1]]" "beta p1 = 1/4" "gamma p1 = 1/2"
  "num_steps p1 = 2" "use_lumped_mass p1 = False" "bcs p1 = [[(0, 0)]]"
  "p_ext p1 t = [t, t]" "LUSolver p1 = cramer2" "tip_value p1 u = u ! 1"
  by (simp_all add: p1_def p0_def)

lemma p1_ops:
  "n_dofs p1 = 2" "dt p1 = 1/2" "C_mat p1 = [[1, 0], [0, 1]]" "K_mat p1 = [[1, 0], [0, 1]]"
  "A_mat p1 = [[1, 0], [0, 37/16]]" "bc_dofs (bcs p1) = {0}"
proof -
  show "n_dofs p1 = 2" using p0_n by (simp add: n_dofs_def p1_def)
  show "dt p1 = 1/2" using p0_dt by (simp add: dt_def p1_def)
  show "C_mat p1 = [[1, 0], [0, 1]]" using p0_C by (simp add: C_mat_def p1_def)
  show "K_mat p1 = [[1, 0], [0, 1]]" using p0_K by (simp add: K_mat_def p1_def)
  show "A_mat p1 = [[1, 0], [0, 37/16]]"
    using p0_A by (simp add: A_mat_def C_mat_def K_mat_def dt_def p1_def)
  show "bc_dofs (bcs p1) = {0}" using p0_dofs by (simp add: p1_def)
qed

lemma p1_facts:
  "wf_problem p1" "homogeneous (bcs p1)" "acceleration_ok p1"
proof -
  show "wf_problem p1"
    using p0_wf p0_n by (simp add: wf_problem_def n_dofs_def p1_def)
  show "homogeneous (bcs p1)" using p0_hom by (simp add: p1_def)
  have "A_mat p1 = A_mat p0" by (simp add: p1_ops p0_A)
  then show "acceleration_ok p1"
    using p0_solver
    by (simp add: acceleration_ok_def solver_exact_def n_dofs_def) (simp add: p1_def p0_def)
qed

lemma p1_lumped_fields:
  "mass_form p1_lumped = [[2, 1], [1, 2]]" "damping_form p1_lumped = [[1, 0], [0, 1]]"
  "stiffness_form p1_lumped = [[1, - 1], [- 1, 1]]" "beta p1_lumped = 0" "gamma p1_lumped = 1/2"
  "num_steps p1_lumped = 2" "use_lumped_mass p1_lumped" "bcs p1_lumped = [[(0, 0)]]"
  "p_ext p1_lumped t = [t, t]" "tip_value p1_lumped u = u ! 1"
  by (simp_all add: p1_lumped_def p1_def p0_def)

lemma p1_lumped_ops:
  "n_dofs p1_lumped = 2" "dt p1_lumped = 1/2" "C_mat p1_lumped = [[1, 0], [0, 1]]"
  "K_mat p1_lumped = [[1, 0], [0, 1]]" "bc_dofs (bcs p1_lumped) = {0}"
  "M_lumped p1_lumped = [13/4, 13/4]" "M_lumped_inv p1_lumped = [4/13, 4/13]"
proof -
  show n: "n_dofs p1_lumped = 2" using p0_n by (simp add: n_dofs_def p1_lumped_def p1_def)
  show d: "dt p1_lumped = 1/2" using p0_dt by (simp add: dt_def p1_lumped_def p1_def)
  show "C_mat p1_lumped = [[1, 0], [0, 1]]" using p0_C by (simp add: C_mat_def p1_lumped_def p1_def)
  show "K_mat p1_lumped = [[1, 0], [0, 1]]" using p0_K by (simp add: K_mat_def p1_lumped_def p1_def)
  show "bc_dofs (bcs p1_lumped) = {0}" using p0_dofs by (simp add: p1_lumped_def p1_def)
  show m: "M_lumped p1_lumped = [13/4, 13/4]"
    unfolding M_lumped_def d n Let_def
    by (simp add: p1_lumped_fields mult_def inner_def mat_add_def mat_scale_def numeral_2_eq_2)
  show "M_lumped_inv p1_lumped = [4/13, 4/13]" by (simp add: M_lumped_inv_def m)
qed

lemma p1_lumped_facts:
  "wf_problem p1_lumped" "homogeneous (bcs p1_lumped)" "acceleration_ok p1_lumped"
proof -
  show "wf_problem p1_lumped"
    using p1_facts(1) by (simp add: wf_problem_def n_dofs_def p1_lumped_def)
  show "homogeneous (bcs p1_lumped)" using p1_facts(2) by (simp add: p1_lumped_def)
  show "acceleration_ok p1_lumped"
    by (simp add: acceleration_ok_def p1_lumped_fields p1_lumped_ops)
qed

lemma p1_forms:
  "pos_def (n_dofs p1) (mass_form p1)" "pos_semidef (n_dofs p1) (damping_form p1)"
  "pos_semidef (n_dofs p1) (stiffness_form p1)" "0 \<le> gamma p1" "0 \<le> beta p1" "0 \<le> t_end p1"
  using p0_forms(4-6) by (simp_all add: p1_ops(1) p1_fields p0_fields) (simp add: p1_def p0_def)

text \<open>The state after the first iteration of the loaded beams.\<close>

lemma p1_loop1:
  "\<exists>s. time_loop p1 1 (init p1) = Inr s \<and> wf_state p1 s \<and>
     u_vec s = [0, 1/74] \<and> v_vec s = [0, 2/37] \<and> a_vec s = [0, 8/37]"
proof -
  have n: "0 < num_steps p1" by (simp add: p1_fields)
  have f: "f_glob (update_force p1 0 (predictor p1 (init p1))) = [0, 1/2]"
    unfolding update_force_fields predictor_fields init_fields p1_ops
    by (simp add: p1_fields axpy_def mult_def inner_def bcs_apply_vec_def bc_apply_vec_def
        numeral_2_eq_2)
  have a: "compute_acceleration p1 [0, 1/2] [0, 1/2] = Some [0, 8/37]"
    unfolding compute_acceleration_def p1_ops by (simp add: p1_fields cramer2_def)
  from step_values [OF p1_facts(1,3) wf_init n f a] obtain s' where
    "step p1 0 (init p1) = Inr s'" "wf_state p1 s'" "a_vec s' = [0, 8/37]"
    "u_vec s' = axpy (u_vec (predictor p1 (init p1))) (beta p1 * (dt p1)\<^sup>2) [0, 8/37]"
    "v_vec s' = axpy (v_vec (predictor p1 (init p1))) (gamma p1 * dt p1) [0, 8/37]"
    by blast
  then show ?thesis
    by (simp add: predictor_fields init_fields p1_ops p1_fields axpy_def numeral_2_eq_2
        power2_eq_square)
qed

lemma p1_lumped_loop1:
  "\<exists>s. time_loop p1_lumped 1 (init p1_lumped) = Inr s \<and> wf_state p1_lumped s \<and>
     u_vec s = [0, 0] \<and> v_vec s = [0, 1/26] \<and> a_vec s = [0, 2/13]"
proof -
  have n: "0 < num_steps p1_lumped" by (simp add: p1_lumped_fields)
  have f: "f_glob (update_force p1_lumped 0 (predictor p1_lumped (init p1_lumped))) = [0, 1/2]"
    unfolding update_force_fields predictor_fields init_fields p1_lumped_ops
    by (simp add: p1_lumped_fields axpy_def mult_def inner_def bcs_apply_vec_def bc_apply_vec_def
        numeral_2_eq_2)
  have a: "compute_acceleration p1_lumped [0, 1/2] [0, 1/2] = Some [0, 2/13]"
    unfolding compute_acceleration_def p1_lumped_ops
    by (simp add: p1_lumped_fields bcs_apply_vec_def bc_apply_vec_def)
  from step_values [OF p1_lumped_facts(1,3) wf_init n f a] obtain s' where
    "step p1_lumped 0 (init p1_lumped) = Inr s'" "wf_state p1_lumped s'" "a_vec s' = [0, 2/13]"
    "u_vec s' = axpy (u_vec (predictor p1_lumped (init p1_lumped)))
        (beta p1_lumped * (dt p1_lumped)\<^sup>2) [0, 2/13]"
    "v_vec s' = axpy (v_vec (predictor p1_lumped (init p1_lumped)))
        (gamma p1_lumped * dt p1_lumped) [0, 2/13]"
    by blast
  then show ?thesis
    by (simp add: predictor_fields init_fields p1_lumped_ops p1_lumped_fields axpy_def
        numeral_2_eq_2 power2_eq_square)
qed

lemma vec2_eqI: "length x = 2 \<Longrightarrow> x ! 0 = a \<Longrightarrow> x ! 1 = b \<Longrightarrow> x = [a, b]"
  by (auto simp: length2)

subsection \<open>The per-step transition\<close>

text \<open>Claim C1. For every step \<open>n\<close> of the loop and previous state \<open>(u, v, a)\<close> the
  iteration returns a state, and there are a predicted displacement \<open>ut\<close>, a predicted velocity
  \<open>vt\<close> and an effective load \<open>ft\<close> with: \<open>ut = u + \<Delta>t\<cdot>v + (\<onehalf> - \<beta>)\<Delta>t\<^sup>2\<cdot>a\<close> and
  \<open>vt = v + (1 - \<gamma>)\<Delta>t\<cdot>a\<close> (previous acceleration only); \<open>ft\<close> is the external force
  at \<open>t = (n + 1)\<Delta>t\<close> minus \<open>C\<cdot>vt\<close> minus \<open>K\<cdot>ut\<close>, with the constrained rows zeroed; the
  new acceleration is what \<^verbatim>\<open>compute_acceleration\<close> returns for \<open>ft\<close>, and it solves the
  effective system for \<open>ft\<close>: \<open>A\<cdot>a = ft\<close> in the implicit variant, and \<open>a\<^sub>i = ft\<^sub>i / m\<^sub>i\<close>
  with the lumped diagonal \<open>m\<close> in the lumped variant; and the new displacement and
  velocity are \<open>ut + \<beta>\<Delta>t\<^sup>2\<cdot>a\<close> and \<open>vt + \<gamma>\<Delta>t\<cdot>a\<close> with the new acceleration.\<close>

theorem step_transition:
  assumes "wf_problem p" "homogeneous (bcs p)" "acceleration_ok p" "wf_state p s"
    and "n < num_steps p"
  shows "\<exists>s' ut vt ft.
     step p n s = Inr s' \<and>
     length ut = n_dofs p \<and> length vt = n_dofs p \<and> length ft = n_dofs p \<and>
     length (a_vec s') = n_dofs p \<and>
     (\<forall>i<n_dofs p. ut ! i =
         u_vec s ! i + dt p * v_vec s ! i + (1/2 - beta p) * (dt p)\<^sup>2 * a_vec s ! i) \<and>
     (\<forall>i<n_dofs p. vt ! i = v_vec s ! i + (1 - gamma p) * dt p * a_vec s ! i) \<and>
     (\<forall>i<n_dofs p. ft ! i =
         (if i \<in> bc_dofs (bcs p) then 0
          else p_ext p (real (n + 1) * dt p) ! i - mult (C_mat p) vt ! i - mult (K_mat p) ut ! i)) \<and>
     compute_acceleration p ft ft = Some (a_vec s') \<and>
     (if use_lumped_mass p then (\<forall>i<n_dofs p. a_vec s' ! i = ft ! i / M_lumped p ! i)
      else mult (A_mat p) (a_vec s') = ft) \<and>
     (\<forall>i<n_dofs p. u_vec s' ! i = ut ! i + beta p * (dt p)\<^sup>2 * a_vec s' ! i) \<and>
     (\<forall>i<n_dofs p. v_vec s' ! i = vt ! i + gamma p * dt p * a_vec s' ! i)"
proof -
  let ?s1 = "predictor p s"
  let ?s2 = "update_force p n ?s1"
  from step_cases [OF assms(1,3,4,5)] obtain a where
    a: "compute_acceleration p (f_glob ?s2) (f_glob ?s2) = Some a" "length a = n_dofs p"
    and st: "step p n s = Inr (write_rows p n (corrector p (?s2\<lparr>a_vec := a\<rparr>)))"
    by blast
  let ?s' = "write_rows p n (corrector p (?s2\<lparr>a_vec := a\<rparr>))"
  have len: "length (u_vec s) = n_dofs p" "length (v_vec s) = n_dofs p"
    "length (a_vec s) = n_dofs p"
    using assms(4) by (simp_all add: wf_state_def)
  have lf: "length (f_glob ?s2) = n_dofs p" using assms(1,4) by (rule length_load)
  have lu: "length (u_vec ?s1) = n_dofs p" and lv: "length (v_vec ?s1) = n_dofs p"
    using len by (simp_all add: predictor_fields)
  have pu: "\<forall>i<n_dofs p. u_vec ?s1 ! i =
      u_vec s ! i + dt p * v_vec s ! i + (1/2 - beta p) * (dt p)\<^sup>2 * a_vec s ! i"
    using len by (simp add: predictor_fields)
  have pv: "\<forall>i<n_dofs p. v_vec ?s1 ! i = v_vec s ! i + (1 - gamma p) * dt p * a_vec s ! i"
    using len by (simp add: predictor_fields)
  have pf: "\<forall>i<n_dofs p. f_glob ?s2 ! i =
         (if i \<in> bc_dofs (bcs p) then 0
          else p_ext p (real (n + 1) * dt p) ! i - mult (C_mat p) (v_vec ?s1) ! i
               - mult (K_mat p) (u_vec ?s1) ! i)"
    using assms(1,2)
    by (simp add: update_force_fields nth_bcs_apply_vec_fixed nth_bcs_apply_vec_free wf_problemD)
  have av: "a_vec ?s' = a"
    by (simp add: write_rows_fields corrector_fields)
  have f0: "\<forall>c\<in>bc_dofs (bcs p). f_glob ?s2 ! c = 0"
    using assms(1,2,4) by (auto intro: load_fixed)
  have sol: "if use_lumped_mass p then (\<forall>i<n_dofs p. a ! i = f_glob ?s2 ! i / M_lumped p ! i)
      else mult (A_mat p) a = f_glob ?s2"
  proof (cases "use_lumped_mass p")
    case True
    from compute_acceleration_lumped [OF assms(1,2) True lf f0] a(1)
    have "a = map2 (*) (M_lumped_inv p) (f_glob ?s2)" by simp
    with nth_lumped_product [OF assms(1) lf] True show ?thesis by simp
  next
    case False
    with implicit_solves(1) [OF assms(1,3) False lf a(1)] show ?thesis by simp
  qed
  have cu: "\<forall>i<n_dofs p. u_vec ?s' ! i = u_vec ?s1 ! i + beta p * (dt p)\<^sup>2 * a ! i"
    using lu a(2) by (simp add: write_rows_fields corrector_fields update_force_fields)
  have cv: "\<forall>i<n_dofs p. v_vec ?s' ! i = v_vec ?s1 ! i + gamma p * dt p * a ! i"
    using lv a(2) by (simp add: write_rows_fields corrector_fields update_force_fields)
  show ?thesis
    apply (rule exI [of _ ?s'])
    apply (rule exI [of _ "u_vec ?s1"])
    apply (rule exI [of _ "v_vec ?s1"])
    apply (rule exI [of _ "f_glob ?s2"])
    unfolding av
    using st lu lv lf a(2) pu pv pf a(1) sol cu cv by - (intro conjI, assumption+)
qed

theorem step_transition_witness:
  "(\<exists>s s' ut vt ft. time_loop p1 1 (init p1) = Inr s \<and>
      u_vec s = [0, 1/74] \<and> v_vec s = [0, 2/37] \<and> a_vec s = [0, 8/37] \<and>
      step p1 1 s = Inr s' \<and>
      ut = [0, 2/37] \<and> vt = [0, 4/37] \<and> ft = [0, 31/37] \<and>
      compute_acceleration p1 ft ft = Some (a_vec s') \<and> mult (A_mat p1) (a_vec s') = ft \<and>
      a_vec s' = [0, 496/1369] \<and> u_vec s' = [0, 105/1369] \<and> v_vec s' = [0, 272/1369]) \<and>
   (\<exists>s s' ut vt ft. time_loop p1_lumped 1 (init p1_lumped) = Inr s \<and>
      u_vec s = [0, 0] \<and> v_vec s = [0, 1/26] \<and> a_vec s = [0, 2/13] \<and>
      step p1_lumped 1 s = Inr s' \<and>
      ut = [0, 1/26] \<and> vt = [0, 1/13] \<and> ft = [0, 23/26] \<and>
      compute_acceleration p1_lumped ft ft = Some (a_vec s') \<and>
      M_lumped p1_lumped = [13/4, 13/4] \<and>
      a_vec s' = [0, 46/169] \<and> u_vec s' = [0, 1/26] \<and> v_vec s' = [0, 49/338])"
proof -
  have n: "1 < num_steps p1" "1 < num_steps p1_lumped"
    by (simp_all add: p1_fields p1_lumped_fields)
  have I: "\<exists>s s' ut vt ft. time_loop p1 1 (init p1) = Inr s \<and>
      u_vec s = [0, 1/74] \<and> v_vec s = [0, 2/37] \<and> a_vec s = [0, 8/37] \<and>
      step p1 1 s = Inr s' \<and>
      ut = [0, 2/37] \<and> vt = [0, 4/37] \<and> ft = [0, 31/37] \<and>
      compute_acceleration p1 ft ft = Some (a_vec s') \<and> mult (A_mat p1) (a_vec s') = ft \<and>
      a_vec s' = [0, 496/1369] \<and> u_vec s' = [0, 105/1369] \<and> v_vec s' = [0, 272/1369]"
  proof -
    from p1_loop1 obtain s where s: "time_loop p1 1 (init p1) = Inr s" "wf_state p1 s"
      "u_vec s = [0, 1/74]" "v_vec s = [0, 2/37]" "a_vec s = [0, 8/37]" by blast
    from step_transition [OF p1_facts s(2) n(1), unfolded p1_ops(1)] obtain s' ut vt ft where
      r: "step p1 1 s = Inr s'" "length ut = 2" "length vt = 2" "length ft = 2"
        "length (a_vec s') = 2"
        "\<forall>i<2. ut ! i =
           u_vec s ! i + dt p1 * v_vec s ! i + (1/2 - beta p1) * (dt p1)\<^sup>2 * a_vec s ! i"
        "\<forall>i<2. vt ! i = v_vec s ! i + (1 - gamma p1) * dt p1 * a_vec s ! i"
        "\<forall>i<2. ft ! i = (if i \<in> bc_dofs (bcs p1) then 0
            else p_ext p1 (real (1 + 1) * dt p1) ! i - mult (C_mat p1) vt ! i
                 - mult (K_mat p1) ut ! i)"
        "compute_acceleration p1 ft ft = Some (a_vec s')"
        "if use_lumped_mass p1 then (\<forall>i<2. a_vec s' ! i = ft ! i / M_lumped p1 ! i)
         else mult (A_mat p1) (a_vec s') = ft"
        "\<forall>i<2. u_vec s' ! i = ut ! i + beta p1 * (dt p1)\<^sup>2 * a_vec s' ! i"
        "\<forall>i<2. v_vec s' ! i = vt ! i + gamma p1 * dt p1 * a_vec s' ! i"
      by blast
    have A: "mult (A_mat p1) (a_vec s') = ft" using r(10) by (simp add: p1_fields(7))
    have ut: "ut = [0, 2/37]"
    proof (rule vec2_eqI [OF r(2)])
      show "ut ! 0 = 0" by (simp add: r(6) s p1_ops p1_fields power2_eq_square)
      show "ut ! 1 = 2/37" by (simp add: r(6) s p1_ops p1_fields power2_eq_square)
    qed
    have vt: "vt = [0, 4/37]"
    proof (rule vec2_eqI [OF r(3)])
      show "vt ! 0 = 0" by (simp add: r(7) s p1_ops p1_fields)
      show "vt ! 1 = 4/37" by (simp add: r(7) s p1_ops p1_fields)
    qed
    have ft: "ft = [0, 31/37]"
    proof (rule vec2_eqI [OF r(4)])
      show "ft ! 0 = 0" by (simp add: r(8) ut vt p1_ops p1_fields mult_def inner_def bc_dofs_def)
      show "ft ! 1 = 31/37" by (simp add: r(8) ut vt p1_ops p1_fields mult_def inner_def bc_dofs_def)
    qed
    have a: "a_vec s' = [0, 496/1369]"
      using r(9) unfolding ft compute_acceleration_def p1_ops
      by (simp add: p1_fields cramer2_def)
    have lu: "length (u_vec s') = 2"
      using step_succeeds [OF p1_facts(1,3) s(2) n(1)] r(1) by (simp add: wf_state_def p1_ops(1))
    have u: "u_vec s' = [0, 105/1369]"
    proof (rule vec2_eqI [OF lu])
      show "u_vec s' ! 0 = 0" by (simp add: r(11) ut a p1_ops p1_fields power2_eq_square)
      show "u_vec s' ! 1 = 105/1369" by (simp add: r(11) ut a p1_ops p1_fields power2_eq_square)
    qed
    have lv: "length (v_vec s') = 2"
      using step_succeeds [OF p1_facts(1,3) s(2) n(1)] r(1) by (simp add: wf_state_def p1_ops(1))
    have v: "v_vec s' = [0, 272/1369]"
    proof (rule vec2_eqI [OF lv])
      show "v_vec s' ! 0 = 0" by (simp add: r(12) vt a p1_ops p1_fields)
      show "v_vec s' ! 1 = 272/1369" by (simp add: r(12) vt a p1_ops p1_fields)
    qed
    from s(1,3,4,5) r(1) ut vt ft r(9) A a u v show ?thesis by blast
  qed
  have B: "\<exists>s s' ut vt ft. time_loop p1_lumped 1 (init p1_lumped) = Inr s \<and>
      u_vec s = [0, 0] \<and> v_vec s = [0, 1/26] \<and> a_vec s = [0, 2/13] \<and>
      step p1_lumped 1 s = Inr s' \<and>
      ut = [0, 1/26] \<and> vt = [0, 1/13] \<and> ft = [0, 23/26] \<and>
      compute_acceleration p1_lumped ft ft = Some (a_vec s') \<and>
      M_lumped p1_lumped = [13/4, 13/4] \<and>
      a_vec s' = [0, 46/169] \<and> u_vec s' = [0, 1/26] \<and> v_vec s' = [0, 49/338]"
  proof -
    from p1_lumped_loop1 obtain s where s: "time_loop p1_lumped 1 (init p1_lumped) = Inr s"
      "wf_state p1_lumped s" "u_vec s = [0, 0]" "v_vec s = [0, 1/26]" "a_vec s = [0, 2/13]"
      by blast
    from step_transition [OF p1_lumped_facts s(2) n(2), unfolded p1_lumped_ops(1)]
    obtain s' ut vt ft where
      r: "step p1_lumped 1 s = Inr s'" "length ut = 2" "length vt = 2" "length ft = 2"
        "length (a_vec s') = 2"
        "\<forall>i<2. ut ! i = u_vec s ! i + dt p1_lumped * v_vec s ! i +
            (1/2 - beta p1_lumped) * (dt p1_lumped)\<^sup>2 * a_vec s ! i"
        "\<forall>i<2. vt ! i = v_vec s ! i + (1 - gamma p1_lumped) * dt p1_lumped * a_vec s ! i"
        "\<forall>i<2. ft ! i = (if i \<in> bc_dofs (bcs p1_lumped) then 0
            else p_ext p1_lumped (real (1 + 1) * dt p1_lumped) ! i
                 - mult (C_mat p1_lumped) vt ! i - mult (K_mat p1_lumped) ut ! i)"
        "compute_acceleration p1_lumped ft ft = Some (a_vec s')"
        "if use_lumped_mass p1_lumped
         then (\<forall>i<2. a_vec s' ! i = ft ! i / M_lumped p1_lumped ! i)
         else mult (A_mat p1_lumped) (a_vec s') = ft"
        "\<forall>i<2. u_vec s' ! i = ut ! i + beta p1_lumped * (dt p1_lumped)\<^sup>2 * a_vec s' ! i"
        "\<forall>i<2. v_vec s' ! i = vt ! i + gamma p1_lumped * dt p1_lumped * a_vec s' ! i"
      by blast
    have L: "\<forall>i<2. a_vec s' ! i = ft ! i / M_lumped p1_lumped ! i"
      using r(10) by (simp add: p1_lumped_fields(7))
    have ut: "ut = [0, 1/26]"
    proof (rule vec2_eqI [OF r(2)])
      show "ut ! 0 = 0" by (simp add: r(6) s p1_lumped_ops p1_lumped_fields power2_eq_square)
      show "ut ! 1 = 1/26" by (simp add: r(6) s p1_lumped_ops p1_lumped_fields power2_eq_square)
    qed
    have vt: "vt = [0, 1/13]"
    proof (rule vec2_eqI [OF r(3)])
      show "vt ! 0 = 0" by (simp add: r(7) s p1_lumped_ops p1_lumped_fields)
      show "vt ! 1 = 1/13" by (simp add: r(7) s p1_lumped_ops p1_lumped_fields)
    qed
    have ft: "ft = [0, 23/26]"
    proof (rule vec2_eqI [OF r(4)])
      show "ft ! 0 = 0" by (simp add: r(8) ut vt p1_lumped_ops p1_lumped_fields mult_def inner_def bc_dofs_def)
      show "ft ! 1 = 23/26" by (simp add: r(8) ut vt p1_lumped_ops p1_lumped_fields mult_def inner_def bc_dofs_def)
    qed
    have a: "a_vec s' = [0, 46/169]"
    proof (rule vec2_eqI [OF r(5)])
      show "a_vec s' ! 0 = 0" by (simp add: L ft p1_lumped_ops)
      show "a_vec s' ! 1 = 46/169" by (simp add: L ft p1_lumped_ops)
    qed
    have lu: "length (u_vec s') = 2"
      using step_succeeds [OF p1_lumped_facts(1,3) s(2) n(2)] r(1) by (simp add: wf_state_def p1_lumped_ops(1))
    have u: "u_vec s' = [0, 1/26]"
    proof (rule vec2_eqI [OF lu])
      show "u_vec s' ! 0 = 0" by (simp add: r(11) ut a p1_lumped_ops p1_lumped_fields power2_eq_square)
      show "u_vec s' ! 1 = 1/26" by (simp add: r(11) ut a p1_lumped_ops p1_lumped_fields power2_eq_square)
    qed
    have lv: "length (v_vec s') = 2"
      using step_succeeds [OF p1_lumped_facts(1,3) s(2) n(2)] r(1) by (simp add: wf_state_def p1_lumped_ops(1))
    have v: "v_vec s' = [0, 49/338]"
    proof (rule vec2_eqI [OF lv])
      show "v_vec s' ! 0 = 0" by (simp add: r(12) vt a p1_lumped_ops p1_lumped_fields)
      show "v_vec s' ! 1 = 49/338" by (simp add: r(12) vt a p1_lumped_ops p1_lumped_fields)
    qed
    from s(1,3,4,5) r(1) ut vt ft r(9) p1_lumped_ops(6) a u v show ?thesis by blast
  qed
  from I B show ?thesis by (rule conjI)
qed

subsection \<open>The effective system\<close>

text \<open>Claim C2. In implicit mode the effective matrix is \<open>M + \<gamma>\<Delta>t\<cdot>C + \<beta>\<Delta>t\<^sup>2\<cdot>K\<close> of the
  assembled forms with the boundary dofs eliminated: entry \<open>(i, j)\<close> is the entry of the
  identity when \<open>i\<close> or \<open>j\<close> is constrained, and the entry of the sum otherwise. With a
  positive definite mass form, positive semidefinite damping and stiffness forms and
  nonnegative \<open>\<gamma>\<close>, \<open>\<beta>\<close> and \<open>\<Delta>t\<close> it is positive definite, and the set-up, which builds the
  matrix and factorizes it, succeeds. Whenever the set-up succeeds, the implicit run goes as
  follows. The factorization of the set-up is the one entry in the record of solver calls
  before the loop. After any number \<open>k\<close> of steps the matrix and the solver object are still
  the ones the set-up built, and the record holds that one factorization followed by one
  substitution per step. The acceleration of step \<open>k\<close> is obtained from the stored factors
  by forward and back substitution, and it is the one solution of \<open>A\<cdot>a = f\<close> for the
  effective load \<open>f\<close> of that step. A direct solver that meets the exactness contract
  returns the same acceleration, so that this run and the loop through
  \<^verbatim>\<open>compute_acceleration\<close> go through the same states.\<close>

theorem effective_system:
  assumes "wf_problem p" "\<not> use_lumped_mass p"
    and "k < num_steps p" "i < n_dofs p" "j < n_dofs p"
  shows "A_mat p = bcs_apply_mat (bcs p) (effective_sum p) \<and>
     A_mat p ! i ! j =
       (if i \<in> bc_dofs (bcs p) \<or> j \<in> bc_dofs (bcs p) then (if i = j then 1 else 0)
        else mass_form p ! i ! j + gamma p * dt p * damping_form p ! i ! j +
             beta p * (dt p)\<^sup>2 * stiffness_form p ! i ! j) \<and>
     (pos_def (n_dofs p) (mass_form p) \<and> pos_semidef (n_dofs p) (damping_form p) \<and>
      pos_semidef (n_dofs p) (stiffness_form p) \<and> 0 \<le> gamma p \<and> 0 \<le> beta p \<and> 0 \<le> t_end p \<longrightarrow>
        pos_def (n_dofs p) (A_mat p) \<and> (\<exists>g0. implicit_setup p = Inr g0)) \<and>
     (\<forall>g0. implicit_setup p = Inr g0 \<longrightarrow>
        A_glob g0 = A_mat p \<and> lu_factorize (A_mat p) = Some (factors (solver g0)) \<and>
        calls g0 = [Factorize (A_mat p)] \<and> vars g0 = init p \<and>
        (\<exists>g g' fl.
           implicit_loop p k g0 = Inr g \<and> implicit_step p k g = Inr g' \<and>
           A_glob g' = A_mat p \<and> solver g' = solver g0 \<and>
           length fl = k \<and> calls g = Factorize (A_mat p) # map Substitute fl \<and>
           calls g' = calls g @ [Substitute (f_glob (vars g'))] \<and>
           a_vec (vars g') = lu_solve (factors (solver g0)) (f_glob (vars g')) \<and>
           mult (A_glob g') (a_vec (vars g')) = f_glob (vars g') \<and>
           (\<forall>y. length y = n_dofs p \<and> mult (A_mat p) y = f_glob (vars g') \<longrightarrow>
                y = a_vec (vars g')) \<and>
           (solver_exact p \<longrightarrow>
              time_loop p k (init p) = Inr (vars g) \<and> step p k (vars g) = Inr (vars g') \<and>
              LUSolver p (A_mat p) (f_glob (vars g')) = Some (a_vec (vars g')))))"
proof -
  have succ: "pos_def (n_dofs p) (A_mat p) \<and> (\<exists>g0. implicit_setup p = Inr g0)"
    if h: "pos_def (n_dofs p) (mass_form p) \<and> pos_semidef (n_dofs p) (damping_form p) \<and>
      pos_semidef (n_dofs p) (stiffness_form p) \<and> 0 \<le> gamma p \<and> 0 \<le> beta p \<and> 0 \<le> t_end p"
  proof -
    have "pos_def (n_dofs p) (effective_sum p)"
      using assms(1) h by (intro pos_def_effective_sum) blast+
    then have pd: "pos_def (n_dofs p) (A_mat p)"
      unfolding A_mat_eliminated_sum [OF assms(1)]
      using wf_effective_sum [OF assms(1)] wf_problemD(4) [OF assms(1)]
      by (intro pos_def_bcs_apply_mat)
    from lu_factorize_pos_def [OF wf_A_mat [OF assms(1)] pd] obtain fs where
      "lu_factorize (A_mat p) = Some fs" by blast
    from implicit_setup_ok [OF this] pd show ?thesis by blast
  qed
  have run: "A_glob g0 = A_mat p \<and> lu_factorize (A_mat p) = Some (factors (solver g0)) \<and>
        calls g0 = [Factorize (A_mat p)] \<and> vars g0 = init p \<and>
        (\<exists>g g' fl.
           implicit_loop p k g0 = Inr g \<and> implicit_step p k g = Inr g' \<and>
           A_glob g' = A_mat p \<and> solver g' = solver g0 \<and>
           length fl = k \<and> calls g = Factorize (A_mat p) # map Substitute fl \<and>
           calls g' = calls g @ [Substitute (f_glob (vars g'))] \<and>
           a_vec (vars g') = lu_solve (factors (solver g0)) (f_glob (vars g')) \<and>
           mult (A_glob g') (a_vec (vars g')) = f_glob (vars g') \<and>
           (\<forall>y. length y = n_dofs p \<and> mult (A_mat p) y = f_glob (vars g') \<longrightarrow>
                y = a_vec (vars g')) \<and>
           (solver_exact p \<longrightarrow>
              time_loop p k (init p) = Inr (vars g) \<and> step p k (vars g) = Inr (vars g') \<and>
              LUSolver p (A_mat p) (f_glob (vars g')) = Some (a_vec (vars g'))))"
    if s0: "implicit_setup p = Inr g0" for g0
  proof -
    note c = implicit_setup_cases [OF s0]
    from assms(3) have "k \<le> num_steps p" by simp
    from implicit_loop_ok [OF assms(1) c(1) s0 this] obtain g fl where
      g: "implicit_loop p k g0 = Inr g" "A_glob g = A_mat p" "solver g = solver g0"
        "factors (solver g) = factors (solver g0)" "wf_state p (vars g)" "length fl = k"
        "calls g = Factorize (A_mat p) # map Substitute fl"
        "\<not> use_lumped_mass p \<and> solver_exact p \<longrightarrow> time_loop p k (init p) = Inr (vars g)"
      by blast
    from implicit_step_ok [OF assms(1) c(1) g(4,5) assms(3)] obtain g' where
      g': "implicit_step p k g = Inr g'" "A_glob g' = A_glob g" "solver g' = solver g"
        "calls g' = calls g @ [Substitute (f_glob (vars g'))]"
        "a_vec (vars g') = lu_solve (factors (solver g0)) (f_glob (vars g'))"
        "mult (A_mat p) (a_vec (vars g')) = f_glob (vars g')"
        "\<forall>y. length y = n_dofs p \<and> mult (A_mat p) y = f_glob (vars g') \<longrightarrow>
           y = a_vec (vars g')"
        "\<not> use_lumped_mass p \<and> solver_exact p \<longrightarrow> step p k (vars g) = Inr (vars g')"
      by blast
    have base: "time_loop p k (init p) = Inr (vars g) \<and> step p k (vars g) = Inr (vars g') \<and>
           LUSolver p (A_mat p) (f_glob (vars g')) = Some (a_vec (vars g'))"
      if h: "solver_exact p"
    proof -
      from h assms(2) g(8) g'(8) have t: "time_loop p k (init p) = Inr (vars g)"
        "step p k (vars g) = Inr (vars g')" by blast+
      from step_result(2) [OF t(2)] assms(2)
      have "LUSolver p (A_mat p) (f_glob (vars g')) = Some (a_vec (vars g'))"
        by (simp add: compute_acceleration_def)
      with t show ?thesis by blast
    qed
    then have base': "solver_exact p \<longrightarrow>
           time_loop p k (init p) = Inr (vars g) \<and> step p k (vars g) = Inr (vars g') \<and>
           LUSolver p (A_mat p) (f_glob (vars g')) = Some (a_vec (vars g'))"
      by blast
    have 1: "A_glob g' = A_mat p" "solver g' = solver g0"
      "mult (A_glob g') (a_vec (vars g')) = f_glob (vars g')"
      using g'(2,3,6) g(2,3) by simp_all
    have "\<exists>g g' fl.
           implicit_loop p k g0 = Inr g \<and> implicit_step p k g = Inr g' \<and>
           A_glob g' = A_mat p \<and> solver g' = solver g0 \<and>
           length fl = k \<and> calls g = Factorize (A_mat p) # map Substitute fl \<and>
           calls g' = calls g @ [Substitute (f_glob (vars g'))] \<and>
           a_vec (vars g') = lu_solve (factors (solver g0)) (f_glob (vars g')) \<and>
           mult (A_glob g') (a_vec (vars g')) = f_glob (vars g') \<and>
           (\<forall>y. length y = n_dofs p \<and> mult (A_mat p) y = f_glob (vars g') \<longrightarrow>
                y = a_vec (vars g')) \<and>
           (solver_exact p \<longrightarrow>
              time_loop p k (init p) = Inr (vars g) \<and> step p k (vars g) = Inr (vars g') \<and>
              LUSolver p (A_mat p) (f_glob (vars g')) = Some (a_vec (vars g')))"
      apply (rule exI [of _ g])
      apply (rule exI [of _ g'])
      apply (rule exI [of _ fl])
      using g(1) g'(1) 1(1,2) g(6,7) g'(4,5) 1(3) g'(7) base'
      by - (intro conjI, assumption+)
    with c(2,1,3,4) show ?thesis by (intro conjI)
  qed
  from A_mat_eliminated_sum [OF assms(1)] nth_A_mat [OF assms(1,4,5)] succ run
  show ?thesis by (intro conjI impI allI) blast+
qed

theorem effective_system_witness:
  "A_mat p1 = [[1, 0], [0, 37/16]] \<and> pos_def 2 (A_mat p1) \<and>
   (\<exists>g0 g g' fl.
      implicit_setup p1 = Inr g0 \<and> A_glob g0 = A_mat p1 \<and>
      factors (solver g0) = [(1, [0], [0]), (37/16, [], [])] \<and>
      calls g0 = [Factorize (A_mat p1)] \<and>
      implicit_loop p1 1 g0 = Inr g \<and> implicit_step p1 1 g = Inr g' \<and>
      A_glob g' = A_mat p1 \<and> solver g' = solver g0 \<and> length fl = 1 \<and>
      calls g' = Factorize (A_mat p1) # map Substitute fl @ [Substitute [0, 31/37]] \<and>
      f_glob (vars g') = [0, 31/37] \<and> a_vec (vars g') = [0, 496/1369] \<and>
      mult (A_mat p1) (a_vec (vars g')) = [0, 31/37] \<and>
      time_loop p1 1 (init p1) = Inr (vars g) \<and> step p1 1 (vars g) = Inr (vars g') \<and>
      LUSolver p1 (A_mat p1) [0, 31/37] = Some [0, 496/1369])"
proof -
  have h: "\<not> use_lumped_mass p1" "1 < num_steps p1" "1 < n_dofs p1"
    by (simp_all add: p1_fields p1_ops)
  have se: "solver_exact p1" using p1_facts(3) h(1) by (simp add: acceleration_ok_def)
  note t = effective_system [OF p1_facts(1) h(1,2,3,3)]
  from t p1_forms have pd: "pos_def 2 (A_mat p1)" and "\<exists>g0. implicit_setup p1 = Inr g0"
    unfolding p1_ops(1) by blast+
  then obtain g0 where s0: "implicit_setup p1 = Inr g0" by blast
  with t obtain g g' fl where
    r: "A_glob g0 = A_mat p1"
      "lu_factorize (A_mat p1) = Some (factors (solver g0))"
      "calls g0 = [Factorize (A_mat p1)]"
      "implicit_loop p1 1 g0 = Inr g" "implicit_step p1 1 g = Inr g'"
      "A_glob g' = A_mat p1" "solver g' = solver g0"
      "length fl = 1" "calls g = Factorize (A_mat p1) # map Substitute fl"
      "calls g' = calls g @ [Substitute (f_glob (vars g'))]"
      "mult (A_glob g') (a_vec (vars g')) = f_glob (vars g')"
      "solver_exact p1 \<longrightarrow>
           time_loop p1 1 (init p1) = Inr (vars g) \<and> step p1 1 (vars g) = Inr (vars g') \<and>
           LUSolver p1 (A_mat p1) (f_glob (vars g')) = Some (a_vec (vars g'))"
    by blast
  from r(12) se have b: "time_loop p1 1 (init p1) = Inr (vars g)"
    "step p1 1 (vars g) = Inr (vars g')"
    "LUSolver p1 (A_mat p1) (f_glob (vars g')) = Some (a_vec (vars g'))" by blast+
  from p1_loop1 b(1) have v: "u_vec (vars g) = [0, 1/74]" "v_vec (vars g) = [0, 2/37]"
    "a_vec (vars g) = [0, 8/37]" by auto
  have f: "f_glob (vars g') = [0, 31/37]"
    unfolding step_result(1) [OF b(2)] update_force_fields predictor_fields v p1_ops
    by (simp add: p1_fields axpy_def mult_def inner_def bcs_apply_vec_def bc_apply_vec_def
        power2_eq_square)
  have a: "a_vec (vars g') = [0, 496/1369]"
    using b(3) unfolding f p1_ops by (simp add: p1_fields cramer2_def)
  have fac: "factors (solver g0) = [(1, [0], [0]), (37/16, [], [])]"
    using r(2) unfolding p1_ops by (simp add: schur_def multipliers_def)
  have c: "calls g' = Factorize (A_mat p1) # map Substitute fl @ [Substitute [0, 31/37]]"
    using r(9,10) f by simp
  have m: "mult (A_mat p1) (a_vec (vars g')) = [0, 31/37]" using r(11) r(6) f by simp
  have l: "LUSolver p1 (A_mat p1) [0, 31/37] = Some [0, 496/1369]" using b(3) f a by simp
  show ?thesis
    using p1_ops(5) pd s0 r(1) fac r(3,4,5,6,7,8) c f a m b(1,2) l by blast
qed

subsection \<open>Constrained dofs\<close>

text \<open>Claim C3. In a run from the zeroed initial state, after every step \<open>k\<close> the
  displacement and the velocity are exactly 0 at every dof that the boundary conditions
  fix to zero.\<close>

theorem fixed_dofs_stay_zero:
  assumes "wf_problem p" "homogeneous (bcs p)" "acceleration_ok p"
    and "i \<in> bc_dofs (bcs p)" "k \<le> num_steps p"
  shows "\<exists>s. time_loop p k (init p) = Inr s \<and> u_vec s ! i = 0 \<and> v_vec s ! i = 0"
proof -
  from time_loop_fixed [OF assms(1,2,3,5)] obtain s where
    s: "time_loop p k (init p) = Inr s"
    "\<forall>i\<in>bc_dofs (bcs p). u_vec s ! i = 0 \<and> v_vec s ! i = 0 \<and> a_vec s ! i = 0"
    by blast
  from s(2) assms(4) have "u_vec s ! i = 0" "v_vec s ! i = 0" by blast+
  with s(1) show ?thesis by blast
qed

theorem fixed_dofs_stay_zero_witness:
  "\<exists>s. time_loop p0 2 (init p0) = Inr s \<and> u_vec s ! 0 = 0 \<and> v_vec s ! 0 = 0"
  using fixed_dofs_stay_zero [of p0 0 2] p0_wf p0_hom p0_ok
  by (simp add: p0_dofs) (simp add: p0_def)

text \<open>Claim C10. After the acceleration solve of any step the acceleration is 0 at every
  constrained dof \<open>i\<close>. The two variants get there differently, as the call on an arbitrary
  vector \<open>f\<close> shows. The lumped variant applies the boundary conditions to the product
  after the diagonal divide: entry \<open>i\<close> of the product is \<open>f\<^sub>i / m\<^sub>i\<close>, and entry \<open>i\<close> of the
  result is 0 whatever \<open>f\<^sub>i\<close> is. The implicit variant returns the solver's result as it is:
  the constrained row of the effective matrix is a row of the identity, so entry \<open>i\<close> of the
  result is \<open>f\<^sub>i\<close>, and it is 0 in the loop only because the constrained entry of the load
  was zeroed before the call.\<close>

theorem acceleration_at_fixed_dofs:
  assumes "wf_problem p" "homogeneous (bcs p)" "acceleration_ok p" "wf_state p s"
    and "i \<in> bc_dofs (bcs p)" "n < num_steps p" "length f = n_dofs p"
  shows "(\<exists>s'. step p n s = Inr s' \<and>
            compute_acceleration p (f_glob s') (f_glob s') = Some (a_vec s') \<and>
            f_glob s' ! i = 0 \<and> a_vec s' ! i = 0) \<and>
     (\<exists>a. compute_acceleration p f f = Some a \<and>
        (if use_lumped_mass p
         then a = bcs_apply_vec (bcs p) (map2 (*) (M_lumped_inv p) f) \<and>
              map2 (*) (M_lumped_inv p) f ! i = f ! i / M_lumped p ! i \<and> a ! i = 0
         else LUSolver p (A_mat p) f = Some a \<and> mult (A_mat p) a ! i = a ! i \<and>
              a ! i = f ! i))"
proof -
  have i: "i < n_dofs p" using wf_problemD(4) [OF assms(1)] assms(5) by (rule wf_bcsD)
  from step_succeeds [OF assms(1,3,4,6)] obtain s' where
    s': "step p n s = Inr s'" "wf_state p s'" by blast
  note r = step_result [OF s'(1)]
  have a0: "a_vec s' ! i = 0"
    using assms(1-5) s'(1) by (rule step_fixed(1))
  have f0: "f_glob s' ! i = 0"
    unfolding r(1) using assms(1,2,4,5) by (rule load_fixed)
  have 1: "\<exists>s'. step p n s = Inr s' \<and>
            compute_acceleration p (f_glob s') (f_glob s') = Some (a_vec s') \<and>
            f_glob s' ! i = 0 \<and> a_vec s' ! i = 0"
    using s'(1) r(2) f0 a0 by blast
  from compute_acceleration_ok [OF assms(1,3,7)] obtain a where
    a: "compute_acceleration p f f = Some a" "length a = n_dofs p" by blast
  have 2: "if use_lumped_mass p
         then a = bcs_apply_vec (bcs p) (map2 (*) (M_lumped_inv p) f) \<and>
              map2 (*) (M_lumped_inv p) f ! i = f ! i / M_lumped p ! i \<and> a ! i = 0
         else LUSolver p (A_mat p) f = Some a \<and> mult (A_mat p) a ! i = a ! i \<and>
              a ! i = f ! i"
  proof (cases "use_lumped_mass p")
    case True
    with a(1) have e: "a = bcs_apply_vec (bcs p) (map2 (*) (M_lumped_inv p) f)"
      by (simp add: compute_acceleration_def)
    have "a ! i = 0"
      unfolding e using assms(2,5) i assms(7) length_M_lumped [OF assms(1)]
      by (simp add: nth_bcs_apply_vec_fixed M_lumped_inv_def)
    with e nth_lumped_product [OF assms(1,7) i] True show ?thesis by simp
  next
    case False
    with a(1) have e: "LUSolver p (A_mat p) f = Some a"
      by (simp add: compute_acceleration_def)
    have row: "mult (A_mat p) a ! i = a ! i"
      using assms(1,5) a(2) by (rule A_mat_fixed_row)
    have "mult (A_mat p) a = f"
      using assms(1,3) False assms(7) a(1) by (rule implicit_solves(1))
    with row have "a ! i = f ! i" by simp
    with e row False show ?thesis by simp
  qed
  from 1 a(1) 2 show ?thesis by blast
qed

theorem acceleration_at_fixed_dofs_witness:
  "(\<exists>s s'. time_loop p1 1 (init p1) = Inr s \<and> step p1 1 s = Inr s' \<and>
      p_ext p1 (real (1 + 1) * dt p1) ! 0 = 1 \<and> f_glob s' ! 0 = 0 \<and> a_vec s' ! 0 = 0) \<and>
   (\<exists>a. compute_acceleration p1 [4, 4] [4, 4] = Some a \<and>
      LUSolver p1 (A_mat p1) [4, 4] = Some a \<and> a ! 0 = 4) \<and>
   (\<exists>s s'. time_loop p1_lumped 1 (init p1_lumped) = Inr s \<and> step p1_lumped 1 s = Inr s' \<and>
      p_ext p1_lumped (real (1 + 1) * dt p1_lumped) ! 0 = 1 \<and> f_glob s' ! 0 = 0 \<and>
      a_vec s' ! 0 = 0) \<and>
   (\<exists>a. compute_acceleration p1_lumped [4, 4] [4, 4] = Some a \<and>
      map2 (*) (M_lumped_inv p1_lumped) [4, 4] ! 0 = 16/13 \<and> a ! 0 = 0)"
proof -
  from p1_loop1 obtain s where s: "time_loop p1 1 (init p1) = Inr s" "wf_state p1 s"
    by blast
  from p1_lumped_loop1 obtain t where t: "time_loop p1_lumped 1 (init p1_lumped) = Inr t"
    "wf_state p1_lumped t" by blast
  have h: "0 \<in> bc_dofs (bcs p1)" "1 < num_steps p1" "length [4, 4 :: real] = n_dofs p1"
    "0 \<in> bc_dofs (bcs p1_lumped)" "1 < num_steps p1_lumped"
    "length [4, 4 :: real] = n_dofs p1_lumped"
    by (simp_all add: p1_ops p1_fields(6) p1_lumped_ops p1_lumped_fields(6))
  note a = acceleration_at_fixed_dofs [OF p1_facts s(2) h(1,2,3)]
  note b = acceleration_at_fixed_dofs [OF p1_lumped_facts t(2) h(4,5,6)]
  have 1: "\<exists>s'. step p1 1 s = Inr s' \<and> f_glob s' ! 0 = 0 \<and> a_vec s' ! 0 = 0"
    using a by blast
  have 2: "\<exists>a. compute_acceleration p1 [4, 4] [4, 4] = Some a \<and>
      LUSolver p1 (A_mat p1) [4, 4] = Some a \<and> a ! 0 = 4"
    using a by (auto simp: p1_fields(7))
  have 3: "\<exists>s'. step p1_lumped 1 t = Inr s' \<and> f_glob s' ! 0 = 0 \<and> a_vec s' ! 0 = 0"
    using b by blast
  have 4: "\<exists>a. compute_acceleration p1_lumped [4, 4] [4, 4] = Some a \<and>
      map2 (*) (M_lumped_inv p1_lumped) [4, 4] ! 0 = 16/13 \<and> a ! 0 = 0"
    using b by (auto simp: p1_lumped_fields(7) p1_lumped_ops)
  have 5: "p_ext p1 (real (1 + 1) * dt p1) ! 0 = 1"
    "p_ext p1_lumped (real (1 + 1) * dt p1_lumped) ! 0 = 1"
    by (simp_all add: p1_fields p1_ops p1_lumped_fields p1_lumped_ops)
  from 1 2 3 4 5 s(1) t(1) show ?thesis by blast
qed

subsection \<open>The zero state is a fixed point\<close>

text \<open>Claim C9. With an external force that is zero at every step and zero initial
  displacement, velocity and acceleration, the three vectors are exactly zero after every
  step of the run.\<close>

theorem zero_state_fixed_point:
  assumes "wf_problem p" "homogeneous (bcs p)" "acceleration_ok p"
    and "\<forall>n<num_steps p. p_ext p (real (n + 1) * dt p) = replicate (n_dofs p) 0"
    and "k \<le> num_steps p"
  shows "\<exists>s. time_loop p k (init p) = Inr s \<and> u_vec s = replicate (n_dofs p) 0 \<and>
           v_vec s = replicate (n_dofs p) 0 \<and> a_vec s = replicate (n_dofs p) 0"
proof -
  have "\<exists>s. time_loop p k (init p) = Inr s \<and> wf_state p s \<and>
           u_vec s = replicate (n_dofs p) 0 \<and> v_vec s = replicate (n_dofs p) 0 \<and>
           a_vec s = replicate (n_dofs p) 0"
    using assms(5)
  proof (induction k)
    case 0
    show ?case by (simp add: wf_init init_fields)
  next
    case (Suc k)
    then obtain s where s: "time_loop p k (init p) = Inr s" "wf_state p s"
      "u_vec s = replicate (n_dofs p) 0" "v_vec s = replicate (n_dofs p) 0"
      "a_vec s = replicate (n_dofs p) 0" by auto
    from Suc.prems have k: "k < num_steps p" by simp
    from step_succeeds [OF assms(1,3) s(2) k] obtain s' where
      s': "step p k s = Inr s'" "wf_state p s'" by blast
    from k assms(4) have "p_ext p (real (k + 1) * dt p) = replicate (n_dofs p) 0"
      by blast
    from step_zero [OF assms(1-3) this s(3-5) s'(1)] s(1) s' show ?case by simp
  qed
  then show ?thesis by blast
qed

theorem zero_state_fixed_point_witness:
  "\<exists>s. time_loop p0_unloaded 2 (init p0_unloaded) = Inr s \<and> u_vec s = [0, 0] \<and>
       v_vec s = [0, 0] \<and> a_vec s = [0, 0]"
proof -
  have "\<forall>n<num_steps p0_unloaded.
      p_ext p0_unloaded (real (n + 1) * dt p0_unloaded) = replicate (n_dofs p0_unloaded) 0"
    by (simp add: p0_unloaded_facts numeral_2_eq_2) (simp add: p0_unloaded_def)
  from zero_state_fixed_point [OF p0_unloaded_facts(1-3) this, of 2]
  show ?thesis by (simp add: p0_unloaded_facts numeral_2_eq_2)
qed

subsection \<open>Energy bookkeeping\<close>



subsection \<open>Validation of the lumped-mass flag\<close>

lemma simulate_prepare:
  "simulate p =
     (case prepare p of Inl e \<Rightarrow> Inl e
      | Inr w \<Rightarrow> (case time_loop p (num_steps p) (init p) of Inl e \<Rightarrow> Inl e
                 | Inr s \<Rightarrow> Inr (w, s)))"
  by (auto simp: simulate_def prepare_def split: sum.splits)

text \<open>Claim C4, as the code has it. With the expected values \<open>(0, 1/2)\<close> the validation
  raises exactly when lumped mass is requested and \<open>|\<beta> - 0|\<close> or \<open>|\<gamma> - 1/2|\<close> is at least
  the tolerance, the double \<^verbatim>\<open>1e-12\<close> (the two tests are strict, so a deviation equal
  to the tolerance is rejected too, not only a larger one). A rejected configuration stops
  the preparation and the whole run with this error, before any step. With
  \<open>(\<beta>, \<gamma>) = (0.25, 0.5)\<close> and lumped mass the configuration is rejected. With
  \<open>(0, 0.5)\<close> the validation passes and the construction succeeds: the cells before the
  loop run through (given at least one time step, positive stiffness and density, and no
  zero on the lumped diagonal, which are what the other cells need).\<close>

theorem lumped_validation:
  assumes "beta_exp p = 0" "gamma_exp p = 1/2"
  shows "(validate_lumped p = Inl CannotUseLumpedMass \<longleftrightarrow>
            use_lumped_mass p \<and> (\<bar>beta p - 0\<bar> \<ge> atol \<or> \<bar>gamma p - 1/2\<bar> \<ge> atol)) \<and>
         atol = 4951760157141521 / 2 ^ 92 \<and>
         (validate_lumped p = Inl CannotUseLumpedMass \<or> validate_lumped p = Inr ()) \<and>
         (validate_lumped p = Inl CannotUseLumpedMass \<longrightarrow>
            prepare p = Inl CannotUseLumpedMass \<and> simulate p = Inl CannotUseLumpedMass) \<and>
         (use_lumped_mass p \<and> beta p = 0.25 \<and> gamma p = 0.5 \<longrightarrow>
            prepare p = Inl CannotUseLumpedMass \<and> simulate p = Inl CannotUseLumpedMass) \<and>
         (beta p = 0 \<and> gamma p = 0.5 \<longrightarrow>
            validate_lumped p = Inr () \<and>
            (0 < num_steps p \<and> 0 < E_mod p \<and> 0 < rho p \<and> 0 \<notin> set (M_lumped p) \<longrightarrow>
               prepare p = Inr (stability_warning (dt p) (l_e p / sqrt (E_mod p / rho p)))))"
proof -
  have v: "validate_lumped p =
      (if use_lumped_mass p \<and> \<not> (\<bar>beta p - 0\<bar> < atol \<and> \<bar>gamma p - 1/2\<bar> < atol)
       then Inl CannotUseLumpedMass else Inr ())"
    by (simp only: validate_lumped_def Let_def assms)
  have a: "0 < atol" "atol \<le> 0.25" by (simp_all add: atol_def)
  have 1: "validate_lumped p = Inl CannotUseLumpedMass \<longleftrightarrow>
            use_lumped_mass p \<and> (\<bar>beta p - 0\<bar> \<ge> atol \<or> \<bar>gamma p - 1/2\<bar> \<ge> atol)"
    unfolding v by (auto simp: not_less)
  have 2: "validate_lumped p = Inl CannotUseLumpedMass \<or> validate_lumped p = Inr ()"
    unfolding v by simp
  have 3: "validate_lumped p = Inl CannotUseLumpedMass \<longrightarrow>
            prepare p = Inl CannotUseLumpedMass \<and> simulate p = Inl CannotUseLumpedMass"
    by (simp add: simulate_def prepare_def)
  have 4: "use_lumped_mass p \<and> beta p = 0.25 \<and> gamma p = 0.5 \<longrightarrow>
            prepare p = Inl CannotUseLumpedMass \<and> simulate p = Inl CannotUseLumpedMass"
    using 1 3 a by auto
  have 5: "beta p = 0 \<and> gamma p = 0.5 \<longrightarrow> validate_lumped p = Inr ()"
    using 1 2 a by auto
  have 6: "beta p = 0 \<and> gamma p = 0.5 \<longrightarrow>
            (0 < num_steps p \<and> 0 < E_mod p \<and> 0 < rho p \<and> 0 \<notin> set (M_lumped p) \<longrightarrow>
               prepare p = Inr (stability_warning (dt p) (l_e p / sqrt (E_mod p / rho p))))"
    using 5 by (auto simp: prepare_def dt_crit_value)
  from 1 2 3 4 5 6 show ?thesis by (simp only: atol_def) blast
qed

theorem lumped_validation_witness:
  "validate_lumped p0_lumped = Inr () \<and> prepare p0_lumped = Inr True \<and>
   prepare (p0_lumped\<lparr>beta := 0.25\<rparr>) = Inl CannotUseLumpedMass \<and>
   simulate (p0_lumped\<lparr>beta := 0.25\<rparr>) = Inl CannotUseLumpedMass \<and>
   simulate p0_lumped_atol = Inl CannotUseLumpedMass"
proof -
  have e: "beta_exp (p0_lumped\<lparr>beta := 0.25\<rparr>) = 0" "gamma_exp (p0_lumped\<lparr>beta := 0.25\<rparr>) = 1/2"
    "beta_exp p0_lumped_atol = 0" "gamma_exp p0_lumped_atol = 1/2"
    by (simp_all add: p0_lumped_atol_def p0_lumped_facts(8,9))
  have f: "beta p0_lumped = 0" "gamma p0_lumped = 0.5" "num_steps p0_lumped = 2"
    "E_mod p0_lumped = 4" "rho p0_lumped = 1" "l_e p0_lumped = 1"
    "use_lumped_mass (p0_lumped\<lparr>beta := 0.25\<rparr>)" "gamma (p0_lumped\<lparr>beta := 0.25\<rparr>) = 0.5"
    "use_lumped_mass p0_lumped_atol" "beta p0_lumped_atol = 4951760157141521 / 2 ^ 92"
    by (simp_all add: p0_lumped_atol_def p0_lumped_def p0_def)
  have sq: "sqrt 4 = 2" by simp
  note a = lumped_validation [OF p0_lumped_facts(8,9)]
  note b = lumped_validation [OF e(1,2)]
  note c = lumped_validation [OF e(3,4)]
  have 1: "validate_lumped p0_lumped = Inr ()" using a f(1,2) by blast
  have "prepare p0_lumped =
      Inr (stability_warning (dt p0_lumped) (l_e p0_lumped / sqrt (E_mod p0_lumped / rho p0_lumped)))"
    using a f(1,2) by (simp add: f(3-6) p0_lumped_M_lumped)
  then have 2: "prepare p0_lumped = Inr True"
    by (simp add: f(4-6) sq p0_lumped_dt stability_warning_def)
  have 3: "prepare (p0_lumped\<lparr>beta := 0.25\<rparr>) = Inl CannotUseLumpedMass \<and>
      simulate (p0_lumped\<lparr>beta := 0.25\<rparr>) = Inl CannotUseLumpedMass"
    using b f(7,8) by simp
  have "validate_lumped p0_lumped_atol = Inl CannotUseLumpedMass"
    using c f(9,10) by simp
  with c have 4: "simulate p0_lumped_atol = Inl CannotUseLumpedMass" by blast
  from 1 2 3 4 show ?thesis by simp
qed

text \<open>The claim as stated (rejection exactly when a deviation is more than the
  tolerance) fails for \<open>\<gamma> = 1/2\<close> and \<open>\<beta>\<close> the double \<^verbatim>\<open>1e-12\<close>: the deviation is
  the tolerance and not more, whether the tolerance is read as the double or as
  \<open>10\<^sup>-\<^sup>1\<^sup>2\<close>, and the configuration is rejected.\<close>

theorem lumped_validation_boundary:
  "beta_exp p0_lumped_atol = 0 \<and> gamma_exp p0_lumped_atol = 1/2 \<and>
   beta p0_lumped_atol = 4951760157141521 / 2 ^ 92 \<and> gamma p0_lumped_atol = 1/2 \<and>
   validate_lumped p0_lumped_atol = Inl CannotUseLumpedMass \<and>
   \<not> (validate_lumped p0_lumped_atol = Inl CannotUseLumpedMass \<longleftrightarrow>
        use_lumped_mass p0_lumped_atol \<and>
        (\<bar>beta p0_lumped_atol - 0\<bar> > atol \<or> \<bar>gamma p0_lumped_atol - 1/2\<bar> > atol)) \<and>
   \<not> (validate_lumped p0_lumped_atol = Inl CannotUseLumpedMass \<longleftrightarrow>
        use_lumped_mass p0_lumped_atol \<and>
        (\<bar>beta p0_lumped_atol - 0\<bar> > 1 / 10 ^ 12 \<or> \<bar>gamma p0_lumped_atol - 1/2\<bar> > 1 / 10 ^ 12))"
  by (simp add: p0_lumped_atol_def p0_lumped_def p0_def validate_lumped_def atol_def)

subsection \<open>Critical time step\<close>

text \<open>Claim C8. For positive stiffness, density and mesh size the critical time step is
  \<open>l\<^sub>e / \<surd>(E/\<rho>)\<close>. A validated run, in the explicit variant as in the implicit one,
  issues the warning exactly when \<open>\<Delta>t\<close> exceeds it, and returns the final state of the
  time loop whether the warning was issued or not; in particular the warning is issued
  for \<open>\<Delta>t = 1.01\<cdot>\<Delta>t\<^sub>c\<^sub>r\<^sub>i\<^sub>t\<close> and not for \<open>\<Delta>t = 0.5\<cdot>\<Delta>t\<^sub>c\<^sub>r\<^sub>i\<^sub>t\<close>.\<close>

theorem critical_time_step:
  assumes "E_mod p > 0" "rho p > 0" "l_e p > 0"
    and "wf_problem p" "acceleration_ok p" "validate_lumped p = Inr ()" "0 < num_steps p"
  shows "\<exists>h_crit s. h_crit = l_e p / sqrt (E_mod p / rho p) \<and> dt_crit p = Inr h_crit \<and>
      time_loop p (num_steps p) (init p) = Inr s \<and>
      simulate p = Inr (stability_warning (dt p) h_crit, s) \<and>
      (stability_warning (dt p) h_crit \<longleftrightarrow> dt p > h_crit) \<and>
      (dt p = 1.01 * h_crit \<longrightarrow> simulate p = Inr (True, s)) \<and>
      (dt p = 0.5 * h_crit \<longrightarrow> simulate p = Inr (False, s))"
proof -
  let ?h = "l_e p / sqrt (E_mod p / rho p)"
  have h: "0 < ?h" using assms(1-3) by simp
  have dc: "dt_crit p = Inr ?h" using assms(1,2) by (rule dt_crit_value)
  from time_loop_succeeds [OF assms(4,5)] obtain s where
    s: "time_loop p (num_steps p) (init p) = Inr s" by blast
  have sim: "simulate p = Inr (dt p > ?h, s)"
    using assms(6,7) dc assms(5) s by (rule simulate_run)
  have a: "dt p = 1.01 * ?h \<longrightarrow> simulate p = Inr (True, s)"
    using sim h by simp
  have b: "dt p = 0.5 * ?h \<longrightarrow> simulate p = Inr (False, s)"
    using sim h by simp
  have c: "simulate p = Inr (stability_warning (dt p) ?h, s)"
    using sim by (simp add: stability_warning_def)
  have d: "stability_warning (dt p) ?h \<longleftrightarrow> dt p > ?h"
    by (simp add: stability_warning_def)
  show ?thesis
    apply (rule exI [of _ ?h])
    apply (rule exI [of _ s])
    using dc s c d a b by - (intro conjI refl, assumption+)
qed

theorem critical_time_step_witness:
  "dt_crit p0_lumped = Inr (1/2) \<and> dt p0_lumped = 1.01 * (1/2) \<and> (\<exists>s. simulate p0_lumped = Inr (True, s)) \<and>
   dt_crit p0_lumped_half = Inr (1/2) \<and> dt p0_lumped_half = 0.5 * (1/2) \<and> (\<exists>s. simulate p0_lumped_half = Inr (False, s))"
proof -
  have e1: "E_mod p0_lumped = 4" "rho p0_lumped = 1" "l_e p0_lumped = 1" "num_steps p0_lumped = 2"
    by (simp_all add: p0_lumped_def p0_def)
  have e2: "E_mod p0_lumped_half = 4" "rho p0_lumped_half = 1" "l_e p0_lumped_half = 1" "num_steps p0_lumped_half = 2"
    by (simp_all add: p0_lumped_half_def p0_lumped_def p0_def)
  have sq: "sqrt 4 = 2" by simp
  from critical_time_step [of p0_lumped] p0_lumped_facts(1,3,7)
  have 1: "dt_crit p0_lumped = Inr (1/2) \<and> (\<exists>s. simulate p0_lumped = Inr (True, s))"
    by (auto simp: e1 p0_lumped_dt sq)
  from critical_time_step [of p0_lumped_half] p0_lumped_half_facts
  have 2: "dt_crit p0_lumped_half = Inr (1/2) \<and> (\<exists>s. simulate p0_lumped_half = Inr (False, s))"
    by (auto simp: e2 p0_lumped_half_dt sq)
  from 1 2 show ?thesis by (simp add: p0_lumped_dt p0_lumped_half_dt)
qed

subsection \<open>The lumped variant\<close>

text \<open>Claim C5. In lumped mode entry \<open>i\<close> of the effective diagonal is the sum of row
  \<open>i\<close> of the mass form plus \<open>\<onehalf>\<Delta>t\<close> times the sum of row \<open>i\<close> of the damping form, and it is
  inverted entry by entry. In every step of the loop the acceleration is the element-wise
  product of the inverse with the effective load of that step, entry \<open>i\<close> being
  \<open>f\<^sub>i / m\<^sub>i\<close>. The same holds for every vector the call can receive: the loop applies the
  boundary conditions to the load before the call, and all conditions of the notebooks
  prescribe zero. The direct solver takes no part: the result is the same whatever solver
  the problem carries.\<close>

theorem lumped_acceleration:
  assumes "wf_problem p" "homogeneous (bcs p)" "use_lumped_mass p" "acceleration_ok p"
    and "wf_state p s" "n < num_steps p" "length g = n_dofs p" "i < n_dofs p"
  shows "M_lumped p ! i =
           sum_list (mass_form p ! i) + 1/2 * dt p * sum_list (damping_form p ! i) \<and>
         M_lumped p ! i \<noteq> 0 \<and> M_lumped_inv p ! i = 1 / M_lumped p ! i \<and>
         (\<exists>s'. step p n s = Inr s' \<and> length (f_glob s') = n_dofs p \<and>
              a_vec s' = map2 (*) (M_lumped_inv p) (f_glob s') \<and>
              a_vec s' ! i = f_glob s' ! i / M_lumped p ! i) \<and>
         (\<exists>a. compute_acceleration p (bcs_apply_vec (bcs p) g) (bcs_apply_vec (bcs p) g) = Some a \<and>
              length a = n_dofs p \<and>
              a = map2 (*) (M_lumped_inv p) (bcs_apply_vec (bcs p) g) \<and>
              a ! i = bcs_apply_vec (bcs p) g ! i / M_lumped p ! i \<and>
              (\<forall>S. compute_acceleration (p\<lparr>LUSolver := S\<rparr>)
                     (bcs_apply_vec (bcs p) g) (bcs_apply_vec (bcs p) g) = Some a))"
proof -
  have lM: "length (M_lumped p) = n_dofs p" using assms(1) by (rule length_M_lumped)
  have nz: "M_lumped p ! i \<noteq> 0"
    using assms(3,4,8) lM by (auto simp: acceleration_ok_def in_set_conv_nth)
  have inv: "M_lumped_inv p ! i = 1 / M_lumped p ! i"
    using assms(8) lM by (simp add: M_lumped_inv_def)
  have loop: "\<exists>s'. step p n s = Inr s' \<and> length (f_glob s') = n_dofs p \<and>
              a_vec s' = map2 (*) (M_lumped_inv p) (f_glob s') \<and>
              a_vec s' ! i = f_glob s' ! i / M_lumped p ! i"
  proof -
    from step_succeeds [OF assms(1,4,5,6)] obtain s' where s': "step p n s = Inr s'"
      by blast
    note r = step_result [OF s']
    have lf: "length (f_glob s') = n_dofs p"
      unfolding r(1) using assms(1,5) by (rule length_load)
    have "\<forall>c\<in>bc_dofs (bcs p). f_glob s' ! c = 0"
      unfolding r(1) using assms(1,2,5) by (auto intro: load_fixed)
    from compute_acceleration_lumped [OF assms(1,2,3) lf this] r(2)
    have a: "a_vec s' = map2 (*) (M_lumped_inv p) (f_glob s')" by simp
    have "a_vec s' ! i = f_glob s' ! i / M_lumped p ! i"
      unfolding a using assms(1) lf assms(8) by (rule nth_lumped_product)
    with s' lf a show ?thesis by blast
  qed
  let ?f = "bcs_apply_vec (bcs p) g"
  have lf: "length ?f = n_dofs p" using assms(7) by simp
  have f0: "\<forall>c\<in>bc_dofs (bcs p). ?f ! c = 0"
    using assms(1,2,7) wf_problemD(4) [OF assms(1)]
    by (auto simp: nth_bcs_apply_vec_fixed wf_bcsD)
  have ca: "compute_acceleration p ?f ?f = Some (map2 (*) (M_lumped_inv p) ?f)"
    using assms(1,2,3) lf f0 by (rule compute_acceleration_lumped)
  have ind: "compute_acceleration (p\<lparr>LUSolver := S\<rparr>) ?f ?f = compute_acceleration p ?f ?f" for S
    using assms(3)
    by (simp add: compute_acceleration_def M_lumped_inv_def M_lumped_def dt_def n_dofs_def)
  have call: "\<exists>a. compute_acceleration p ?f ?f = Some a \<and> length a = n_dofs p \<and>
              a = map2 (*) (M_lumped_inv p) ?f \<and> a ! i = ?f ! i / M_lumped p ! i \<and>
              (\<forall>S. compute_acceleration (p\<lparr>LUSolver := S\<rparr>) ?f ?f = Some a)"
    using ca lf lM nth_lumped_product [OF assms(1) lf assms(8)] ind
    by (simp add: M_lumped_inv_def)
  from nth_M_lumped [OF assms(1,8)] nz inv loop call show ?thesis by blast
qed

theorem lumped_acceleration_witness:
  "M_lumped p1_lumped ! 1 = 13/4 \<and> M_lumped_inv p1_lumped ! 1 = 4/13 \<and>
   (\<exists>s s'. time_loop p1_lumped 1 (init p1_lumped) = Inr s \<and> step p1_lumped 1 s = Inr s' \<and>
      a_vec s' = map2 (*) (M_lumped_inv p1_lumped) (f_glob s') \<and>
      a_vec s' ! 1 = f_glob s' ! 1 / M_lumped p1_lumped ! 1) \<and>
   bcs_apply_vec (bcs p1_lumped) [4, 4] = [0, 4] \<and>
   compute_acceleration p1_lumped [0, 4] [0, 4] = Some [0, 16/13]"
proof -
  from p1_lumped_loop1 obtain s where s: "time_loop p1_lumped 1 (init p1_lumped) = Inr s"
    "wf_state p1_lumped s" by blast
  have h: "1 < num_steps p1_lumped" "length [4, 4 :: real] = n_dofs p1_lumped"
    "1 < n_dofs p1_lumped"
    by (simp_all add: p1_lumped_fields p1_lumped_ops)
  note t = lumped_acceleration [OF p1_lumped_facts(1,2) p1_lumped_fields(7) p1_lumped_facts(3)
      s(2) h]
  have f: "bcs_apply_vec (bcs p1_lumped) [4, 4] = [0, 4]"
    by (simp add: p1_lumped_fields bcs_apply_vec_def bc_apply_vec_def)
  have 1: "M_lumped_inv p1_lumped ! 1 = 1 / M_lumped p1_lumped ! 1"
    using t by blast
  have 2: "\<exists>s'. step p1_lumped 1 s = Inr s' \<and>
        a_vec s' = map2 (*) (M_lumped_inv p1_lumped) (f_glob s') \<and>
        a_vec s' ! 1 = f_glob s' ! 1 / M_lumped p1_lumped ! 1"
    using t by blast
  have "\<exists>a. compute_acceleration p1_lumped [0, 4] [0, 4] = Some a \<and>
        a = map2 (*) (M_lumped_inv p1_lumped) [0, 4]"
    using t unfolding f by blast
  then have 3: "compute_acceleration p1_lumped [0, 4] [0, 4] = Some [0, 16/13]"
    by (simp add: p1_lumped_ops)
  from 1 2 3 f s(1) show ?thesis by (auto simp: p1_lumped_ops(6))
qed

subsection \<open>Elimination of the constrained dofs in a matrix\<close>

text \<open>Claim C6. Applying the boundary conditions to an \<open>n \<times> n\<close> matrix replaces every
  constrained row and column by the row and column of the identity and leaves the other
  entries as they are. The matrices the notebook applies them to are assembled from
  symmetric positive semidefinite forms: such a matrix stays symmetric and positive
  semidefinite, and if it is nonsingular it stays nonsingular. The elimination acts in the
  same way on every operator of the effective system: the damping matrix, the stiffness
  matrix and the effective matrix have the pattern of the identity at the same rows and
  columns and the entries of their forms elsewhere, and the effective matrix is the one
  obtained with the mass matrix eliminated like the other two. With a positive definite
  mass form, positive semidefinite damping and stiffness forms and nonnegative \<open>\<gamma>\<close>, \<open>\<beta>\<close>
  and \<open>\<Delta>t\<close>, the three matrices are symmetric and the effective matrix is nonsingular.\<close>

theorem elimination_properties:
  assumes "wf_mat n A" "wf_bcs n bs" "i < n" "j < n"
    and "wf_problem p" "k < n_dofs p" "l < n_dofs p"
  shows "bcs_apply_mat bs A ! i ! j =
           (if i \<in> bc_dofs bs \<or> j \<in> bc_dofs bs then (if i = j then 1 else 0) else A ! i ! j) \<and>
         (symmetric A \<longrightarrow> symmetric (bcs_apply_mat bs A)) \<and>
         (pos_semidef n A \<longrightarrow> pos_semidef n (bcs_apply_mat bs A)) \<and>
         (symmetric A \<and> pos_semidef n A \<and> nonsingular n A \<longrightarrow>
            nonsingular n (bcs_apply_mat bs A)) \<and>
         C_mat p ! k ! l =
           (if k \<in> bc_dofs (bcs p) \<or> l \<in> bc_dofs (bcs p) then (if k = l then 1 else 0)
            else damping_form p ! k ! l) \<and>
         K_mat p ! k ! l =
           (if k \<in> bc_dofs (bcs p) \<or> l \<in> bc_dofs (bcs p) then (if k = l then 1 else 0)
            else stiffness_form p ! k ! l) \<and>
         A_mat p ! k ! l =
           (if k \<in> bc_dofs (bcs p) \<or> l \<in> bc_dofs (bcs p) then (if k = l then 1 else 0)
            else effective_sum p ! k ! l) \<and>
         A_mat p = bcs_apply_mat (bcs p)
           (mat_add (mat_add (bcs_apply_mat (bcs p) (mass_form p))
              (mat_scale (gamma p * dt p) (C_mat p))) (mat_scale (beta p * (dt p)\<^sup>2) (K_mat p))) \<and>
         (symmetric (mass_form p) \<and> symmetric (damping_form p) \<and> symmetric (stiffness_form p) \<and>
          pos_def (n_dofs p) (mass_form p) \<and> pos_semidef (n_dofs p) (damping_form p) \<and>
          pos_semidef (n_dofs p) (stiffness_form p) \<and>
          0 \<le> gamma p \<and> 0 \<le> beta p \<and> 0 \<le> t_end p \<longrightarrow>
            symmetric (C_mat p) \<and> symmetric (K_mat p) \<and> symmetric (A_mat p) \<and>
            nonsingular (n_dofs p) (A_mat p))"
proof -
  note w = wf_problemD [OF assms(5)]
  have entry: "bcs_apply_mat bs A ! i ! j =
      (if i \<in> bc_dofs bs \<or> j \<in> bc_dofs bs then (if i = j then 1 else 0) else A ! i ! j)"
    using assms(1-4) by (rule nth_bcs_apply_mat)
  have sym: "symmetric A \<longrightarrow> symmetric (bcs_apply_mat bs A)"
    using symmetric_bcs_apply_mat [OF assms(1,2)] by blast
  have psd: "pos_semidef n A \<longrightarrow> pos_semidef n (bcs_apply_mat bs A)"
    using pos_semidef_bcs_apply_mat [OF assms(1,2)] by blast
  have ns: "symmetric A \<and> pos_semidef n A \<and> nonsingular n A \<longrightarrow>
            nonsingular n (bcs_apply_mat bs A)"
    using psd_nonsingular_pos_def [OF assms(1)] pos_def_bcs_apply_mat [OF assms(1,2)]
      pos_def_nonsingular by blast
  have C: "C_mat p ! k ! l =
           (if k \<in> bc_dofs (bcs p) \<or> l \<in> bc_dofs (bcs p) then (if k = l then 1 else 0)
            else damping_form p ! k ! l)"
    unfolding C_mat_def using w(2,4) assms(6,7) by (rule nth_bcs_apply_mat)
  have K: "K_mat p ! k ! l =
           (if k \<in> bc_dofs (bcs p) \<or> l \<in> bc_dofs (bcs p) then (if k = l then 1 else 0)
            else stiffness_form p ! k ! l)"
    unfolding K_mat_def using w(3,4) assms(6,7) by (rule nth_bcs_apply_mat)
  have A: "A_mat p ! k ! l =
           (if k \<in> bc_dofs (bcs p) \<or> l \<in> bc_dofs (bcs p) then (if k = l then 1 else 0)
            else effective_sum p ! k ! l)"
    unfolding A_mat_eliminated_sum [OF assms(5)]
    using wf_effective_sum [OF assms(5)] w(4) assms(6,7) by (rule nth_bcs_apply_mat)
  have prog: "symmetric (C_mat p) \<and> symmetric (K_mat p) \<and> symmetric (A_mat p) \<and>
            nonsingular (n_dofs p) (A_mat p)"
    if h: "symmetric (mass_form p) \<and> symmetric (damping_form p) \<and> symmetric (stiffness_form p) \<and>
          pos_def (n_dofs p) (mass_form p) \<and> pos_semidef (n_dofs p) (damping_form p) \<and>
          pos_semidef (n_dofs p) (stiffness_form p) \<and>
          0 \<le> gamma p \<and> 0 \<le> beta p \<and> 0 \<le> t_end p"
  proof -
    have sC: "symmetric (C_mat p)"
      unfolding C_mat_def using w(2,4) h by (intro symmetric_bcs_apply_mat) blast+
    have sK: "symmetric (K_mat p)"
      unfolding K_mat_def using w(3,4) h by (intro symmetric_bcs_apply_mat) blast+
    have "symmetric (effective_sum p)"
      using assms(5) h by (intro symmetric_effective_sum) blast+
    then have sA: "symmetric (A_mat p)"
      unfolding A_mat_eliminated_sum [OF assms(5)]
      using wf_effective_sum [OF assms(5)] w(4) by (intro symmetric_bcs_apply_mat)
    have "pos_def (n_dofs p) (effective_sum p)"
      using assms(5) h by (intro pos_def_effective_sum) blast+
    then have "pos_def (n_dofs p) (A_mat p)"
      unfolding A_mat_eliminated_sum [OF assms(5)]
      using wf_effective_sum [OF assms(5)] w(4) by (intro pos_def_bcs_apply_mat)
    then have "nonsingular (n_dofs p) (A_mat p)" by (rule pos_def_nonsingular)
    with sC sK sA show ?thesis by blast
  qed
  then have prog': "symmetric (mass_form p) \<and> symmetric (damping_form p) \<and>
          symmetric (stiffness_form p) \<and>
          pos_def (n_dofs p) (mass_form p) \<and> pos_semidef (n_dofs p) (damping_form p) \<and>
          pos_semidef (n_dofs p) (stiffness_form p) \<and>
          0 \<le> gamma p \<and> 0 \<le> beta p \<and> 0 \<le> t_end p \<longrightarrow>
            symmetric (C_mat p) \<and> symmetric (K_mat p) \<and> symmetric (A_mat p) \<and>
            nonsingular (n_dofs p) (A_mat p)"
    by blast
  from entry sym psd ns C K A A_mat_mass_eliminated [OF assms(5)] prog'
  show ?thesis by - (intro conjI, assumption+)
qed

theorem elimination_properties_witness:
  "bcs_apply_mat (bcs p0) (mass_form p0) ! 0 ! 1 = 0 \<and>
   bcs_apply_mat (bcs p0) (mass_form p0) ! 1 ! 1 = 2 \<and>
   symmetric (mass_form p0) \<and> pos_semidef 2 (mass_form p0) \<and> nonsingular 2 (mass_form p0) \<and>
   symmetric (bcs_apply_mat (bcs p0) (mass_form p0)) \<and>
   pos_semidef 2 (bcs_apply_mat (bcs p0) (mass_form p0)) \<and>
   nonsingular 2 (bcs_apply_mat (bcs p0) (mass_form p0)) \<and>
   C_mat p0 ! 1 ! 1 = 1 \<and> K_mat p0 ! 0 ! 1 = 0 \<and> K_mat p0 ! 1 ! 1 = 1 \<and> A_mat p0 ! 1 ! 1 = 37/16 \<and>
   symmetric (C_mat p0) \<and> symmetric (K_mat p0) \<and> symmetric (A_mat p0) \<and>
   nonsingular 2 (A_mat p0)"
proof -
  have w: "wf_mat 2 (mass_form p0)" "wf_bcs 2 (bcs p0)"
    by (simp_all add: p0_def wf_mat_def wf_bcs_def)
  have c: "0 \<le> gamma p0" "0 \<le> beta p0" "0 \<le> t_end p0"
    by (simp_all add: p0_def)
  have m: "pos_semidef 2 (mass_form p0)" "nonsingular 2 (mass_form p0)"
    using p0_forms(4) by (simp_all add: pos_def_pos_semidef pos_def_nonsingular)
  have i: "(0::nat) < 2" "(1::nat) < 2" "1 < n_dofs p0" by (simp_all add: p0_n)
  note a = elimination_properties [OF w i(1,2) p0_wf i(3,3)]
  note b = elimination_properties [OF w i(2,2) p0_wf i(3,3)]
  note d = elimination_properties [OF w i(2,2) p0_wf _ i(3), of 0]
  have e: "effective_sum p0 ! 1 ! 1 = 37/16"
    by (simp add: effective_sum_def p0_dt p0_fields mat_add_def mat_scale_def power2_eq_square)
  from a b d p0_forms [unfolded p0_n [symmetric]] m c e show ?thesis
    by (simp add: p0_dofs p0_n p0_fields(1-3))
qed

end
